theory Spec2Isabelle
  imports Main "HOL-Library.AList"
begin

section \<open>Values, cells and the heap\<close>

text \<open>
  JavaScript values of a cell: \<open>undefined\<close>, \<open>null\<close> and a payload. The strict
  comparison \<open>!==\<close> of the source is HOL inequality on this type.
\<close>

datatype val = Undefined | Null | Num int

datatype error = Thrown string

text \<open>\<open>DerivedFnProps\<close>: the argument object of a compute function.\<close>

record fnprops =
  prevVal :: val
  prevDepVals :: "val list option"
  currDepVals :: "val list"

text \<open>
  A cell handle. \<open>Store i\<close> is a \<open>Store\<close> object, \<open>Derived i deps fn\<close> a
  \<open>Derived\<close> object together with its immutable \<open>options.deps\<close> and \<open>options.fn\<close>;
  \<open>i\<close> is the identity of the object. A compute function that throws returns \<open>Inl\<close>.
  The optional callbacks \<open>onUpdate\<close>, \<open>onSubscribe\<close> and \<open>updateFn\<close> are absent.
\<close>

datatype cell = Store nat | Derived nat "cell list" "fnprops \<Rightarrow> error + val"

text \<open>
  The repository holds two \<open>Derived\<close> classes: the one embedded in
  \<open>src/packages/store/src/effect.ts\<close> and the one of \<open>src/unnamed/part_001\<close>, which
  reuses its dependency-value arrays.
\<close>

datatype variant = EffectTs | Part001

text \<open>
  \<open>lastSeenDepValues\<close> is a reference to an array. In \<open>effect.ts\<close> it is always an
  array of its own; in \<open>part_001\<close> \<open>getDepVals\<close> makes it the very object
  \<open>_currDepValsArray\<close>.
\<close>

datatype arr_ref = OwnArray "val list" | CurrDepValsArray

record store_st =
  s_state :: val
  s_prevState :: val

record derived_st =
  computed_memo :: "(val \<times> val list) option"
  cachedState :: val
  previousResult :: val
  d_prevState :: val
  isFirstRun :: bool
  lastSeenDepValues :: arr_ref
  prevDepValsArray :: "val list"
  currDepValsArray :: "val list"

text \<open>
  The log is instrumentation: every call of \<open>recompute()\<close> and every invocation of a
  compute function (with its argument) is appended to it.
\<close>

datatype event = RecomputeCall nat | FnCall nat fnprops

record heap =
  stores :: "nat \<Rightarrow> store_st"
  deriveds :: "nat \<Rightarrow> derived_st"
  nextId :: nat
  log :: "event list"

definition upd_derived :: "nat \<Rightarrow> (derived_st \<Rightarrow> derived_st) \<Rightarrow> heap \<Rightarrow> heap" where
  "upd_derived i f h = h\<lparr>deriveds := (deriveds h)(i := f (deriveds h i))\<rparr>"

definition add_log :: "event \<Rightarrow> heap \<Rightarrow> heap" where
  "add_log e h = h\<lparr>log := log h @ [e]\<rparr>"

text \<open>\<open>x ?? undefined\<close>\<close>

definition nullish_undefined :: "val \<Rightarrow> val" where
  "nullish_undefined x = (if x = Null \<or> x = Undefined then Undefined else x)"

text \<open>\<open>arr[k] = x\<close>: an assignment past the end extends the array.\<close>

definition js_set :: "val list \<Rightarrow> nat \<Rightarrow> val \<Rightarrow> val list" where
  "js_set xs k x =
     (if k < length xs then xs[k := x] else xs @ replicate (k - length xs) Undefined @ [x])"

text \<open>\<open>arr[k]\<close>: a read past the end is \<open>undefined\<close>.\<close>

definition js_get :: "val list \<Rightarrow> nat \<Rightarrow> val" where
  "js_get xs k = (if k < length xs then xs ! k else Undefined)"

text \<open>\<open>dep.prevState\<close>, a plain field of either class.\<close>

fun prevState_of :: "heap \<Rightarrow> cell \<Rightarrow> val" where
  "prevState_of h (Store s) = s_prevState (stores h s)"
| "prevState_of h (Derived i deps fn) = d_prevState (deriveds h i)"

fun cell_id :: "cell \<Rightarrow> nat" where
  "cell_id (Store s) = s"
| "cell_id (Derived i deps fn) = i"

fun is_Derived :: "cell \<Rightarrow> bool" where
  "is_Derived (Store s) = False"
| "is_Derived (Derived i deps fn) = True"

text \<open>Identity of objects: same class and same identity.\<close>

definition same_cell :: "cell \<Rightarrow> cell \<Rightarrow> bool" where
  "same_cell a b = (is_Derived a = is_Derived b \<and> cell_id a = cell_id b)"

section \<open>The Derived cell\<close>

text \<open>
  The tail of \<open>getDepVals\<close> after its loop: \<open>lastSeenDepValues\<close> is set and the
  argument object is built. \<open>ps\<close> and \<open>cs\<close> are the local arrays of \<open>effect.ts\<close>;
  \<open>part_001\<close> hands out its two reused arrays.
\<close>

definition getDepVals_result ::
  "variant \<Rightarrow> nat \<Rightarrow> val list \<Rightarrow> val list \<Rightarrow> heap \<Rightarrow> fnprops \<times> heap" where
  "getDepVals_result v i ps cs h =
     (case v of
        EffectTs \<Rightarrow>
          (let h1 = upd_derived i (\<lambda>d. d\<lparr>lastSeenDepValues := OwnArray cs\<rparr>) h;
               d = deriveds h1 i
           in (\<lparr>prevVal = nullish_undefined (d_prevState d),
                prevDepVals = (if isFirstRun d then None else Some ps),
                currDepVals = cs\<rparr>, h1))
      | Part001 \<Rightarrow>
          (let h1 = upd_derived i (\<lambda>d. d\<lparr>lastSeenDepValues := CurrDepValsArray\<rparr>) h;
               d = deriveds h1 i
           in (\<lparr>prevVal = previousResult d,
                prevDepVals = (if isFirstRun d then None else Some (prevDepValsArray d)),
                currDepVals = currDepValsArray d\<rparr>, h1)))"

text \<open>
  The tail of the \<open>computed\<close> callback after \<open>getDepVals\<close>: the compute function is
  invoked, and on return the first-run flag is cleared and (in \<open>part_001\<close>) the cached
  state and the previous result are set. The runtime then caches the result with the
  dependency values that were read (the last line).
\<close>

definition callback_finish ::
  "variant \<Rightarrow> nat \<Rightarrow> (fnprops \<Rightarrow> error + val) \<Rightarrow> fnprops \<Rightarrow> val list \<Rightarrow> heap
    \<Rightarrow> (error + val) \<times> heap" where
  "callback_finish v i fn props cs h =
     (let h1 = add_log (FnCall i props) h
      in case fn props of
           Inl e \<Rightarrow> (Inl e, h1)
         | Inr r \<Rightarrow>
            (let h2 = upd_derived i (\<lambda>d. d\<lparr>isFirstRun := False\<rparr>) h1;
                 h3 = (if v = Part001
                       then upd_derived i (\<lambda>d. d\<lparr>cachedState := r, previousResult := r\<rparr>) h2
                       else h2)
             in (Inr r, upd_derived i (\<lambda>d. d\<lparr>computed_memo := Some (r, cs)\<rparr>) h3)))"

text \<open>
  Modelled from the spec: the memoized computation of the reactive runtime (\<open>computed\<close>
  of alien-signals), which is not in src/: "\<open>read()\<close> triggering memoized
  recomputation when tracked reads are stale". A node caches its last result with the
  values of the dependencies read by that run (\<open>computed_memo\<close>). A read runs the
  callback when there is no cache or when \<open>check_dirty\<close> finds a dependency whose value
  is not the cached one, and returns the cached result otherwise. A callback that throws
  leaves the cache as it was.

  A \<open>node\<close> is the read operation of a dependency's reactive node: the signal of a
  \<open>Store\<close>, the computation of a \<open>Derived\<close>. \<open>check_dirty\<close> brings the dependencies
  up to date in order, each through its node, and stops at the first one whose value
  differs from the cached one.
\<close>

type_synonym node = "heap \<Rightarrow> (error + val) \<times> heap"

fun check_dirty :: "node list \<Rightarrow> val list \<Rightarrow> heap \<Rightarrow> (error + bool) \<times> heap" where
  "check_dirty [] tracked h = (Inr False, h)"
| "check_dirty (n # ns) [] h = (Inr False, h)"
| "check_dirty (n # ns) (t # tracked) h =
     (case n h of
        (Inl e, h1) \<Rightarrow> (Inl e, h1)
      | (Inr x, h1) \<Rightarrow> (if x \<noteq> t then (Inr True, h1) else check_dirty ns tracked h1))"

definition memo_check ::
  "node list \<Rightarrow> (val \<times> val list) option \<Rightarrow> heap \<Rightarrow> (error + val option) \<times> heap" where
  "memo_check ns memo h =
     (case memo of
        None \<Rightarrow> (Inr None, h)
      | Some (cv, tracked) \<Rightarrow>
          (case check_dirty ns tracked h of
             (Inl e, h1) \<Rightarrow> (Inl e, h1)
           | (Inr dirty, h1) \<Rightarrow> (Inr (if dirty then None else Some cv), h1)))"

text \<open>
  \<open>get state()\<close> of a dependency whose node is \<open>n\<close>: a \<open>Store\<close> returns its signal,
  a \<open>Derived\<close> its computation; \<open>effect.ts\<close> also stores the result as \<open>_cachedState\<close>.
\<close>

definition getter :: "variant \<Rightarrow> cell \<Rightarrow> node \<Rightarrow> heap \<Rightarrow> (error + val) \<times> heap" where
  "getter v c n h =
     (case n h of
        (Inl e, h1) \<Rightarrow> (Inl e, h1)
      | (Inr r, h1) \<Rightarrow>
          (Inr r, if v = EffectTs \<and> is_Derived c
                  then upd_derived (cell_id c) (\<lambda>d. d\<lparr>cachedState := r\<rparr>) h1 else h1))"

text \<open>
  The \<open>for\<close> loop of \<open>getDepVals\<close> over the dependencies (each with its node); \<open>k\<close>
  is the index. \<open>part_001\<close> writes into its two reused arrays, \<open>effect.ts\<close> fills
  the two local arrays that are returned.
\<close>

fun getDepVals_loop ::
  "variant \<Rightarrow> nat \<Rightarrow> (cell \<times> node) list \<Rightarrow> nat \<Rightarrow> heap
    \<Rightarrow> (error + val list \<times> val list) \<times> heap" where
  "getDepVals_loop v i [] k h = (Inr ([], []), h)"
| "getDepVals_loop v i ((dep, n) # deps) k h =
     (let p = prevState_of h dep;
          h1 = (if v = Part001
                then upd_derived i (\<lambda>d. d\<lparr>prevDepValsArray := js_set (prevDepValsArray d) k p\<rparr>) h
                else h)
      in case getter v dep n h1 of
           (Inl e, h2) \<Rightarrow> (Inl e, h2)
         | (Inr c, h2) \<Rightarrow>
             (let h3 = (if v = Part001
                        then upd_derived i
                               (\<lambda>d. d\<lparr>currDepValsArray := js_set (currDepValsArray d) k c\<rparr>) h2
                        else h2)
              in case getDepVals_loop v i deps (Suc k) h3 of
                   (Inl e, h4) \<Rightarrow> (Inl e, h4)
                 | (Inr (ps, cs), h4) \<Rightarrow> (Inr (p # ps, c # cs), h4)))"

text \<open>\<open>getDepVals\<close>: the loop, then the result object.\<close>

definition getDepVals_nodes ::
  "variant \<Rightarrow> nat \<Rightarrow> (cell \<times> node) list \<Rightarrow> heap \<Rightarrow> (error + fnprops) \<times> heap" where
  "getDepVals_nodes v i deps h =
     (case getDepVals_loop v i deps 0 h of
        (Inl e, h1) \<Rightarrow> (Inl e, h1)
      | (Inr (ps, cs), h1) \<Rightarrow>
          (case getDepVals_result v i ps cs h1 of (props, h2) \<Rightarrow> (Inr props, h2)))"

text \<open>
  The callback given to \<open>computed\<close> in the constructor: \<open>part_001\<close> first sets
  \<open>prevState\<close> to the cached state; then \<open>getDepVals\<close> and the compute function.
\<close>

definition computed_callback ::
  "variant \<Rightarrow> nat \<Rightarrow> (fnprops \<Rightarrow> error + val) \<Rightarrow> (cell \<times> node) list \<Rightarrow> heap
    \<Rightarrow> (error + val) \<times> heap" where
  "computed_callback v i fn deps h =
     (let h1 = (if v = Part001
                then upd_derived i (\<lambda>d. d\<lparr>d_prevState := cachedState d\<rparr>) h
                else h)
      in case getDepVals_nodes v i deps h1 of
           (Inl e, h2) \<Rightarrow> (Inl e, h2)
         | (Inr props, h2) \<Rightarrow> callback_finish v i fn props (currDepVals props) h2)"

text \<open>\<open>this._computed()\<close>, given the dependencies with their nodes.\<close>

definition computed_node ::
  "variant \<Rightarrow> nat \<Rightarrow> (fnprops \<Rightarrow> error + val) \<Rightarrow> (cell \<times> node) list \<Rightarrow> heap
    \<Rightarrow> (error + val) \<times> heap" where
  "computed_node v i fn deps h =
     (case memo_check (map snd deps) (computed_memo (deriveds h i)) h of
        (Inl e, h1) \<Rightarrow> (Inl e, h1)
      | (Inr (Some cv), h1) \<Rightarrow> (Inr cv, h1)
      | (Inr None, h1) \<Rightarrow> computed_callback v i fn deps h1)"

text \<open>The reactive node of a cell: \<open>this._signal()\<close> or \<open>this._computed()\<close>.\<close>

fun node_read :: "variant \<Rightarrow> cell \<Rightarrow> heap \<Rightarrow> (error + val) \<times> heap" where
  "node_read v (Store s) h = (Inr (s_state (stores h s)), h)"
| "node_read v (Derived i deps fn) h =
     computed_node v i fn (map (\<lambda>d. (d, node_read v d)) deps) h"

definition with_nodes :: "variant \<Rightarrow> cell list \<Rightarrow> (cell \<times> node) list" where
  "with_nodes v deps = map (\<lambda>d. (d, node_read v d)) deps"

definition computed_read ::
  "variant \<Rightarrow> nat \<Rightarrow> cell list \<Rightarrow> (fnprops \<Rightarrow> error + val) \<Rightarrow> heap \<Rightarrow> (error + val) \<times> heap" where
  "computed_read v i deps fn h = computed_node v i fn (with_nodes v deps) h"

text \<open>\<open>get state()\<close> of \<open>Store\<close> and of either \<open>Derived\<close> class.\<close>

definition state_get :: "variant \<Rightarrow> cell \<Rightarrow> heap \<Rightarrow> (error + val) \<times> heap" where
  "state_get v c h = getter v c (node_read v c) h"

definition getDepVals :: "variant \<Rightarrow> nat \<Rightarrow> cell list \<Rightarrow> heap \<Rightarrow> (error + fnprops) \<times> heap" where
  "getDepVals v i deps h = getDepVals_nodes v i (with_nodes v deps) h"

text \<open>
  The constructor of \<open>Store\<close> and of \<open>Derived\<close>. A new object gets the identity
  \<open>nextId\<close>. The \<open>Derived\<close> constructor runs the computation once; when the compute
  function throws, no object is returned.
\<close>

definition new_Store :: "val \<Rightarrow> heap \<Rightarrow> cell \<times> heap" where
  "new_Store initialState h =
     (let i = nextId h
      in (Store i,
          h\<lparr>stores := (stores h)(i := \<lparr>s_state = initialState, s_prevState = initialState\<rparr>),
            nextId := Suc i\<rparr>))"

definition fresh_derived :: "variant \<Rightarrow> nat \<Rightarrow> derived_st" where
  "fresh_derived v l =
     \<lparr>computed_memo = None, cachedState = Undefined, previousResult = Undefined,
      d_prevState = Undefined, isFirstRun = True, lastSeenDepValues = OwnArray [],
      prevDepValsArray = (if v = Part001 then replicate l Undefined else []),
      currDepValsArray = (if v = Part001 then replicate l Undefined else [])\<rparr>"

definition new_Derived ::
  "variant \<Rightarrow> cell list \<Rightarrow> (fnprops \<Rightarrow> error + val) \<Rightarrow> heap \<Rightarrow> (error + cell) \<times> heap" where
  "new_Derived v deps fn h =
     (let i = nextId h;
          h1 = h\<lparr>deriveds := (deriveds h)(i := fresh_derived v (length deps)), nextId := Suc i\<rparr>
      in case computed_read v i deps fn h1 of
           (Inl e, h2) \<Rightarrow> (Inl e, h2)
         | (Inr r, h2) \<Rightarrow>
             (let h3 = upd_derived i (\<lambda>d. d\<lparr>cachedState := r\<rparr>) h2;
                  h4 = (if v = Part001
                        then upd_derived i (\<lambda>d. d\<lparr>d_prevState := cachedState d\<rparr>) h3
                        else h3)
              in (Inr (Derived i deps fn), h4)))"

text \<open>\<open>recompute\<close>. The registry holds \<open>Derived\<close> objects only, so a \<open>Store\<close> has none.\<close>

fun recompute :: "variant \<Rightarrow> cell \<Rightarrow> heap \<Rightarrow> (error + unit) \<times> heap" where
  "recompute v (Store s) h = (Inr (), h)"
| "recompute v (Derived i deps fn) h =
     (let h0 = add_log (RecomputeCall i) h
      in case v of
           EffectTs \<Rightarrow>
             (let h1 = upd_derived i (\<lambda>d. d\<lparr>d_prevState := cachedState d\<rparr>) h0
              in case computed_read v i deps fn h1 of
                   (Inl e, h2) \<Rightarrow> (Inl e, h2)
                 | (Inr r, h2) \<Rightarrow> (Inr (), upd_derived i (\<lambda>d. d\<lparr>cachedState := r\<rparr>) h2))
         | Part001 \<Rightarrow>
             (case computed_read v i deps fn h0 of
                (Inl e, h2) \<Rightarrow> (Inl e, h2)
              | (Inr r, h2) \<Rightarrow> (Inr (), h2)))"

text \<open>
  \<open>checkIfRecalculationNeededDeeply\<close>. \<open>differs\<close> is its comparison loop over
  \<open>currDepVals\<close>; \<open>deref\<close> reads the array a reference points to at the time of
  the comparison, that is after \<open>getDepVals\<close> has run.
\<close>

fun differs :: "val list \<Rightarrow> val list \<Rightarrow> nat \<Rightarrow> bool" where
  "differs [] lastSeen k = False"
| "differs (c # cs) lastSeen k = (if c \<noteq> js_get lastSeen k then True else differs cs lastSeen (Suc k))"

definition deref :: "heap \<Rightarrow> nat \<Rightarrow> arr_ref \<Rightarrow> val list" where
  "deref h i r = (case r of OwnArray xs \<Rightarrow> xs | CurrDepValsArray \<Rightarrow> currDepValsArray (deriveds h i))"

definition check_self ::
  "variant \<Rightarrow> nat \<Rightarrow> cell list \<Rightarrow> (fnprops \<Rightarrow> error + val) \<Rightarrow> heap \<Rightarrow> (error + unit) \<times> heap" where
  "check_self v i deps fn h =
     (let lastSeen = lastSeenDepValues (deriveds h i)
      in case getDepVals v i deps h of
           (Inl e, h1) \<Rightarrow> (Inl e, h1)
         | (Inr props, h1) \<Rightarrow>
             (if differs (currDepVals props) (deref h1 i lastSeen) 0
              then recompute v (Derived i deps fn) h1
              else (Inr (), h1)))"

fun checkIfRecalculationNeededDeeply :: "variant \<Rightarrow> cell \<Rightarrow> heap \<Rightarrow> (error + unit) \<times> heap"
and check_deps :: "variant \<Rightarrow> cell list \<Rightarrow> heap \<Rightarrow> (error + unit) \<times> heap"
where
  "checkIfRecalculationNeededDeeply v (Store s) h = (Inr (), h)"
| "checkIfRecalculationNeededDeeply v (Derived i deps fn) h =
     (case check_deps v deps h of
        (Inl e, h1) \<Rightarrow> (Inl e, h1)
      | (Inr u, h1) \<Rightarrow> check_self v i deps fn h1)"
| "check_deps v [] h = (Inr (), h)"
| "check_deps v (Store s # deps) h = check_deps v deps h"
| "check_deps v (Derived j ds f # deps) h =
     (case checkIfRecalculationNeededDeeply v (Derived j ds f) h of
        (Inl e, h1) \<Rightarrow> (Inl e, h1)
      | (Inr u, h1) \<Rightarrow> check_deps v deps h1)"

section \<open>The dependency graph registry\<close>

text \<open>
  The scheduler's module state. The two \<open>WeakMap\<close>s and the two \<open>Map\<close>s are association
  lists (\<open>Map.set\<close> on a present key keeps its place, as \<open>AList.update\<close> does), the
  \<open>Set\<close>s that are iterated are lists without duplicates in insertion order, and
  \<open>__depsThatHaveWrittenThisTick\<close>, which is only asked for membership, is a set of
  object identities.
\<close>

type_synonym key = "bool \<times> nat"

definition key_of :: "cell \<Rightarrow> key" where
  "key_of c = (is_Derived c, cell_id c)"

datatype updater = Value val | Updater "val \<Rightarrow> val"

record sched =
  storeToDerived :: "(nat \<times> cell list) list"
  derivedToStore :: "(nat \<times> nat list) list"
  depsThatHaveWrittenThisTick :: "key set"
  isFlushing :: bool
  batchDepth :: nat
  pendingUpdates :: "nat list"
  initialBatchValues :: "(nat \<times> val) list"
  pendingSignalUpdates :: "(nat \<times> updater) list"

text \<open>\<open>Set.add\<close> and \<open>Set.delete\<close> on a set kept as a list.\<close>

definition set_add :: "nat \<Rightarrow> nat list \<Rightarrow> nat list" where
  "set_add x xs = (if x \<in> set xs then xs else xs @ [x])"

definition set_delete :: "nat \<Rightarrow> nat list \<Rightarrow> nat list" where
  "set_delete x xs = filter (\<lambda>y. y \<noteq> x) xs"

text \<open>\<open>arr.includes(c)\<close> and \<open>arr.indexOf(c)\<close> compare by identity.\<close>

definition arr_includes :: "cell list \<Rightarrow> cell \<Rightarrow> bool" where
  "arr_includes arr c = list_ex (same_cell c) arr"

fun indexOf :: "cell list \<Rightarrow> cell \<Rightarrow> nat option" where
  "indexOf [] c = None"
| "indexOf (x # xs) c =
     (if same_cell x c then Some 0 else map_option Suc (indexOf xs c))"

text \<open>
  \<open>arr.splice(arr.indexOf(c), 1)\<close>. \<open>indexOf\<close> answers \<open>-1\<close> for an absent element,
  and \<open>splice(-1, 1)\<close> removes the last element of the array.
\<close>

definition splice_indexOf :: "cell list \<Rightarrow> cell \<Rightarrow> cell list" where
  "splice_indexOf arr c =
     (case indexOf arr c of
        Some k \<Rightarrow> take k arr @ drop (Suc k) arr
      | None \<Rightarrow> butlast arr)"

fun deps_of :: "cell \<Rightarrow> cell list" where
  "deps_of (Store s) = []"
| "deps_of (Derived i deps fn) = deps"

text \<open>The comparator of the sort in \<open>registerOnGraph\<close>.\<close>

definition sort_cmp :: "cell \<Rightarrow> cell \<Rightarrow> int" where
  "sort_cmp a b =
     (if is_Derived a \<and> arr_includes (deps_of a) b then 1
      else if is_Derived b \<and> arr_includes (deps_of b) a then - 1
      else 0)"

text \<open>
  \<open>Array.prototype.sort\<close> is a builtin of the language and not code of the repository;
  the comparator above is not a consistent order, so the language leaves the resulting
  order to the engine. The model follows the V8 engine (\<open>ArrayTimSort\<close>) on an array
  of fewer than 64 elements, which that sort treats as one run: \<open>make_run\<close> finds
  the longest run at the head of the array that is ascending, or strictly descending
  and then reversed in place, by comparing each element with the one before it
  (\<open>comparefn(arr[k + 1], arr[k])\<close>); every later element is then put into the
  sorted head at the place that a binary search finds (\<open>comparefn(pivot, arr[mid])\<close>,
  to the left when the result is negative). Longer arrays, whose runs the engine
  merges, are sorted in the same way here.
\<close>

fun run_asc :: "cell \<Rightarrow> cell list \<Rightarrow> nat" where
  "run_asc previous [] = 0"
| "run_asc previous (x # xs) = (if sort_cmp x previous < 0 then 0 else Suc (run_asc x xs))"

fun run_desc :: "cell \<Rightarrow> cell list \<Rightarrow> nat" where
  "run_desc previous [] = 0"
| "run_desc previous (x # xs) = (if sort_cmp x previous < 0 then Suc (run_desc x xs) else 0)"

fun make_run :: "cell list \<Rightarrow> cell list \<times> cell list" where
  "make_run (a # b # xs) =
     (if sort_cmp b a < 0
      then (let n = Suc (Suc (run_desc b xs))
            in (rev (take n (a # b # xs)), drop n (a # b # xs)))
      else (let n = Suc (Suc (run_asc b xs))
            in (take n (a # b # xs), drop n (a # b # xs))))"
| "make_run [a] = ([a], [])"
| "make_run [] = ([], [])"

function insertion_point :: "cell \<Rightarrow> cell list \<Rightarrow> nat \<Rightarrow> nat \<Rightarrow> nat" where
  "insertion_point pivot arr left right =
     (if left < right
      then (let mid = left + (right - left) div 2
            in if sort_cmp pivot (arr ! mid) < 0
               then insertion_point pivot arr left mid
               else insertion_point pivot arr (Suc mid) right)
      else left)"
  by pat_completeness auto

definition binary_insert :: "cell list \<Rightarrow> cell \<Rightarrow> cell list" where
  "binary_insert run pivot =
     (let left = insertion_point pivot run 0 (length run)
      in take left run @ pivot # drop left run)"

definition js_sort :: "cell list \<Rightarrow> cell list" where
  "js_sort arr = (case make_run arr of (run, rest) \<Rightarrow> foldl binary_insert run rest)"

text \<open>The last loop of \<open>registerOnGraph\<close>: every array of \<open>toSort\<close> is sorted in place.\<close>

fun sort_all :: "nat list \<Rightarrow> sched \<Rightarrow> sched" where
  "sort_all [] sc = sc"
| "sort_all (s # toSort) sc =
     sort_all toSort
       (case map_of (storeToDerived sc) s of
          None \<Rightarrow> sc
        | Some arr \<Rightarrow> sc\<lparr>storeToDerived := AList.update s (js_sort arr) (storeToDerived sc)\<rparr>)"

text \<open>The body of the first loop of \<open>registerOnGraph\<close> for a dependency that is a \<open>Store\<close>.\<close>

definition register_store :: "cell \<Rightarrow> nat \<Rightarrow> nat list \<Rightarrow> sched \<Rightarrow> nat list \<times> sched" where
  "register_store this s toSort sc =
     (let (toSort1, sc1) =
            (case map_of (storeToDerived sc) s of
               None \<Rightarrow> (toSort, sc\<lparr>storeToDerived := AList.update s [this] (storeToDerived sc)\<rparr>)
             | Some arr \<Rightarrow>
                 (if \<not> arr_includes arr this
                  then (set_add s toSort,
                        sc\<lparr>storeToDerived := AList.update s (arr @ [this]) (storeToDerived sc)\<rparr>)
                  else (toSort, sc)));
          relatedStores = (case map_of (derivedToStore sc1) (cell_id this) of
                             None \<Rightarrow> [] | Some related \<Rightarrow> related)
      in (toSort1,
          sc1\<lparr>derivedToStore :=
                 AList.update (cell_id this) (set_add s relatedStores) (derivedToStore sc1)\<rparr>))"

text \<open>
  \<open>this.registerOnGraph(deps)\<close>; \<open>register_loop\<close> is its first loop, with the local
  set \<open>toSort\<close> (the arrays are named by the store that owns them).
\<close>

fun registerOnGraph :: "cell \<Rightarrow> cell list \<Rightarrow> sched \<Rightarrow> sched"
and register_loop :: "cell \<Rightarrow> cell list \<Rightarrow> nat list \<Rightarrow> sched \<Rightarrow> nat list \<times> sched"
where
  "registerOnGraph this deps sc =
     (case register_loop this deps [] sc of (toSort, sc1) \<Rightarrow> sort_all toSort sc1)"
| "register_loop this [] toSort sc = (toSort, sc)"
| "register_loop this (Derived j ds f # deps) toSort sc =
     register_loop this deps toSort
       (registerOnGraph this ds (registerOnGraph (Derived j ds f) ds sc))"
| "register_loop this (Store s # deps) toSort sc =
     (case register_store this s toSort sc of
        (toSort1, sc1) \<Rightarrow> register_loop this deps toSort1 sc1)"

declare registerOnGraph.simps [simp del]

text \<open>The body of the loop of \<open>unregisterFromGraph\<close> for a dependency that is a \<open>Store\<close>.\<close>

definition unregister_store :: "cell \<Rightarrow> nat \<Rightarrow> sched \<Rightarrow> sched" where
  "unregister_store this s sc =
     (let sc1 = (case map_of (storeToDerived sc) s of
                   None \<Rightarrow> sc
                 | Some arr \<Rightarrow>
                     sc\<lparr>storeToDerived :=
                          AList.update s (splice_indexOf arr this) (storeToDerived sc)\<rparr>)
      in case map_of (derivedToStore sc1) (cell_id this) of
           None \<Rightarrow> sc1
         | Some related \<Rightarrow>
             sc1\<lparr>derivedToStore :=
                   AList.update (cell_id this) (set_delete s related) (derivedToStore sc1)\<rparr>)"

fun unregisterFromGraph :: "cell \<Rightarrow> cell list \<Rightarrow> sched \<Rightarrow> sched" where
  "unregisterFromGraph this [] sc = sc"
| "unregisterFromGraph this (Derived j ds f # deps) sc =
     unregisterFromGraph this deps (unregisterFromGraph this ds sc)"
| "unregisterFromGraph this (Store s # deps) sc =
     unregisterFromGraph this deps (unregister_store this s sc)"

text \<open>
  \<open>mount\<close> and the function it returns (no code of the repository fills
  \<open>_subscriptions\<close>, so its loop has nothing to call).
\<close>

definition mount :: "variant \<Rightarrow> cell \<Rightarrow> sched \<times> heap \<Rightarrow> (error + unit) \<times> sched \<times> heap" where
  "mount v this st =
     (case st of (sc, h) \<Rightarrow>
        (let sc1 = registerOnGraph this (deps_of this) sc
         in case checkIfRecalculationNeededDeeply v this h of (r, h1) \<Rightarrow> (r, sc1, h1)))"

definition unmount :: "cell \<Rightarrow> sched \<Rightarrow> sched" where
  "unmount this sc = unregisterFromGraph this (deps_of this) sc"

section \<open>The scheduler\<close>

text \<open>
  The arrays that \<open>__flush_internals\<close> recurses into for one derived cell: for each
  store of \<open>__derivedToStore.get(derived)\<close>, in order, the array
  \<open>__storeToDerived.get(store)\<close> (a missing or empty one is skipped).
\<close>

definition related_arrays ::
  "(nat \<times> cell list) list \<Rightarrow> (nat \<times> nat list) list \<Rightarrow> cell \<Rightarrow> cell list" where
  "related_arrays s2d d2s derived =
     concat (map (\<lambda>store. case map_of s2d store of None \<Rightarrow> [] | Some arr \<Rightarrow> arr)
                 (case map_of d2s (cell_id derived) of None \<Rightarrow> [] | Some related \<Rightarrow> related))"

definition registry_keys :: "(nat \<times> cell list) list \<Rightarrow> key set" where
  "registry_keys s2d = key_of ` (\<Union>arr \<in> snd ` set s2d. set arr)"

text \<open>
  \<open>__flush_internals\<close>. Its recursion is a depth-first walk; the iterations that the
  enclosing loops still have to run are kept behind the array being walked, so the
  argument is the whole list of cells still to visit, in the order the source visits
  them. An exception ends the walk. The registry is not changed by a flush;
  \<open>visited\<close> is \<open>__depsThatHaveWrittenThisTick\<close>.
\<close>

function flush_internals ::
  "variant \<Rightarrow> (nat \<times> cell list) list \<Rightarrow> (nat \<times> nat list) list \<Rightarrow> key set \<Rightarrow> cell list \<Rightarrow> heap
    \<Rightarrow> (error + unit) \<times> key set \<times> heap" where
  "flush_internals v s2d d2s visited [] h = (Inr (), visited, h)"
| "flush_internals v s2d d2s visited (derived # relatedVals) h =
     (if key_of derived \<in> visited then flush_internals v s2d d2s visited relatedVals h
      else
        (case recompute v derived h of
           (Inl e, h1) \<Rightarrow> (Inl e, insert (key_of derived) visited, h1)
         | (Inr u, h1) \<Rightarrow>
             flush_internals v s2d d2s (insert (key_of derived) visited)
               (related_arrays s2d d2s derived @ relatedVals) h1))"
  by pat_completeness auto

text \<open>
  The first loop of the \<open>while\<close> body of \<open>__flush\<close>: every queued store gets as
  \<open>prevState\<close> its value of \<open>__initialBatchValues\<close>, or keeps its own when that is
  missing, \<open>null\<close> or \<open>undefined\<close> (\<open>??\<close>).
\<close>

fun commit_prevStates :: "(nat \<times> val) list \<Rightarrow> nat list \<Rightarrow> heap \<Rightarrow> heap" where
  "commit_prevStates ibv [] h = h"
| "commit_prevStates ibv (store # queued) h =
     (let prevState = (case map_of ibv store of
                         None \<Rightarrow> s_prevState (stores h store)
                       | Some x \<Rightarrow> (if x = Null \<or> x = Undefined
                                    then s_prevState (stores h store) else x))
      in commit_prevStates ibv queued
           (h\<lparr>stores := (stores h)(store := (stores h store)\<lparr>s_prevState := prevState\<rparr>)\<rparr>))"

text \<open>The second loop of the \<open>while\<close> body.\<close>

fun flush_stores ::
  "variant \<Rightarrow> (nat \<times> cell list) list \<Rightarrow> (nat \<times> nat list) list \<Rightarrow> key set \<Rightarrow> nat list \<Rightarrow> heap
    \<Rightarrow> (error + unit) \<times> key set \<times> heap" where
  "flush_stores v s2d d2s visited [] h = (Inr (), visited, h)"
| "flush_stores v s2d d2s visited (store # queued) h =
     (case map_of s2d store of
        None \<Rightarrow> flush_stores v s2d d2s visited queued h
      | Some derivedVals \<Rightarrow>
          (case flush_internals v s2d d2s (insert (False, store) visited) derivedVals h of
             (Inl e, visited1, h1) \<Rightarrow> (Inl e, visited1, h1)
           | (Inr u, visited1, h1) \<Rightarrow> flush_stores v s2d d2s visited1 queued h1))"

text \<open>The \<open>while (__pendingUpdates.size > 0)\<close> loop of \<open>__flush\<close>.\<close>

function flush_while :: "variant \<Rightarrow> sched \<Rightarrow> heap \<Rightarrow> (error + unit) \<times> sched \<times> heap" where
  "flush_while v sc h =
     (if pendingUpdates sc = [] then (Inr (), sc, h)
      else
        (let queued = pendingUpdates sc;
             sc1 = sc\<lparr>pendingUpdates := []\<rparr>;
             h1 = commit_prevStates (initialBatchValues sc1) queued h
         in case flush_stores v (storeToDerived sc1) (derivedToStore sc1)
                   (depsThatHaveWrittenThisTick sc1) queued h1 of
              (Inl e, visited, h2) \<Rightarrow> (Inl e, sc1\<lparr>depsThatHaveWrittenThisTick := visited\<rparr>, h2)
            | (Inr u, visited, h2) \<Rightarrow>
                flush_while v (sc1\<lparr>depsThatHaveWrittenThisTick := visited\<rparr>) h2))"
  by pat_completeness auto

text \<open>
  \<open>__flush\<close>. The two early returns come before the \<open>try\<close>; the \<open>finally\<close> block
  runs whether the loop returned or threw, and the exception is passed on.
\<close>

definition flush :: "variant \<Rightarrow> nat \<Rightarrow> sched \<times> heap \<Rightarrow> (error + unit) \<times> sched \<times> heap" where
  "flush v store st =
     (case st of (sc, h) \<Rightarrow>
        (let sc1 = (if batchDepth sc > 0 \<and> map_of (initialBatchValues sc) store = None
                    then sc\<lparr>initialBatchValues :=
                              AList.update store (s_prevState (stores h store)) (initialBatchValues sc)\<rparr>
                    else sc);
             sc2 = sc1\<lparr>pendingUpdates := set_add store (pendingUpdates sc1)\<rparr>
         in if batchDepth sc2 > 0 then (Inr (), sc2, h)
            else if isFlushing sc2 then (Inr (), sc2, h)
            else
              (case flush_while v (sc2\<lparr>isFlushing := True\<rparr>) h of
                 (r, sc3, h3) \<Rightarrow>
                   (r, sc3\<lparr>isFlushing := False, depsThatHaveWrittenThisTick := {},
                            initialBatchValues := []\<rparr>, h3))))"

section \<open>The Store\<close>

text \<open>
  The function that \<open>setState\<close> hands to \<open>queueSignalUpdate\<close>: the previous state is
  saved, the signal is written (an updater function is applied to the previous state),
  and the store is flushed when it has an entry in \<open>__storeToDerived\<close>.
\<close>

definition apply_update ::
  "variant \<Rightarrow> nat \<Rightarrow> updater \<Rightarrow> sched \<times> heap \<Rightarrow> (error + unit) \<times> sched \<times> heap" where
  "apply_update v store u st =
     (case st of (sc, h) \<Rightarrow>
        (let prevState = s_state (stores h store);
             next = (case u of Updater f \<Rightarrow> f prevState | Value x \<Rightarrow> x);
             h1 = h\<lparr>stores := (stores h)(store := \<lparr>s_state = next, s_prevState = prevState\<rparr>)\<rparr>
         in if map_of (storeToDerived sc) store \<noteq> None
            then flush v store (sc, h1)
            else (Inr (), sc, h1)))"

text \<open>\<open>queueSignalUpdate\<close> as called by \<open>Store.setState\<close>.\<close>

definition setState ::
  "variant \<Rightarrow> nat \<Rightarrow> updater \<Rightarrow> sched \<times> heap \<Rightarrow> (error + unit) \<times> sched \<times> heap" where
  "setState v store u st =
     (case st of (sc, h) \<Rightarrow>
        (if batchDepth sc > 0
         then (Inr (), sc\<lparr>pendingSignalUpdates :=
                             AList.update store u (pendingSignalUpdates sc)\<rparr>, h)
         else apply_update v store u (sc, h)))"

text \<open>The loop over the queued updates at the end of the outermost \<open>batch\<close>.\<close>

fun run_updates ::
  "variant \<Rightarrow> (nat \<times> updater) list \<Rightarrow> sched \<times> heap \<Rightarrow> (error + unit) \<times> sched \<times> heap" where
  "run_updates v [] st = (Inr (), st)"
| "run_updates v ((store, u) # updates) st =
     (case apply_update v store u st of
        (Inl e, st1) \<Rightarrow> (Inl e, st1)
      | (Inr x, st1) \<Rightarrow> run_updates v updates st1)"

text \<open>The \<open>finally\<close> block of \<open>batch\<close>.\<close>

definition batch_exit :: "variant \<Rightarrow> sched \<times> heap \<Rightarrow> (error + unit) \<times> sched \<times> heap" where
  "batch_exit v st =
     (case st of (sc, h) \<Rightarrow>
        (let sc1 = sc\<lparr>batchDepth := batchDepth sc - 1\<rparr>
         in if batchDepth sc1 = 0
            then run_updates v (pendingSignalUpdates sc1) (sc1\<lparr>pendingSignalUpdates := []\<rparr>, h)
            else (Inr (), sc1, h)))"

text \<open>
  What the function given to \<open>batch\<close> does: writes to stores and nested batches.
  \<open>exec\<close> runs one command, \<open>exec_all\<close> a function body; \<open>exec (Batch body)\<close> is
  \<open>batch(fn)\<close>. An exception of the \<open>finally\<close> block replaces one of the body.
\<close>

datatype cmd = SetState nat updater | Batch "cmd list"

fun exec :: "variant \<Rightarrow> cmd \<Rightarrow> sched \<times> heap \<Rightarrow> (error + unit) \<times> sched \<times> heap"
and exec_all :: "variant \<Rightarrow> cmd list \<Rightarrow> sched \<times> heap \<Rightarrow> (error + unit) \<times> sched \<times> heap"
where
  "exec v (SetState store u) st = setState v store u st"
| "exec v (Batch body) st =
     (case exec_all v body (fst st\<lparr>batchDepth := Suc (batchDepth (fst st))\<rparr>, snd st) of
        (r, st1) \<Rightarrow>
          (case batch_exit v st1 of
             (Inl e, st2) \<Rightarrow> (Inl e, st2)
           | (Inr x, st2) \<Rightarrow> (r, st2)))"
| "exec_all v [] st = (Inr (), st)"
| "exec_all v (c # cs) st =
     (case exec v c st of
        (Inl e, st1) \<Rightarrow> (Inl e, st1)
      | (Inr x, st1) \<Rightarrow> exec_all v cs st1)"

section \<open>The initial state\<close>

text \<open>The module state of the scheduler when it is loaded, and a heap without objects.\<close>

definition init_sched :: sched where
  "init_sched =
     \<lparr>storeToDerived = [], derivedToStore = [], depsThatHaveWrittenThisTick = {},
      isFlushing = False, batchDepth = 0, pendingUpdates = [], initialBatchValues = [],
      pendingSignalUpdates = []\<rparr>"

definition init_heap :: heap where
  "init_heap =
     \<lparr>stores = (\<lambda>i. \<lparr>s_state = Undefined, s_prevState = Undefined\<rparr>),
      deriveds = (\<lambda>i. fresh_derived EffectTs 0), nextId = 0, log = []\<rparr>"

section \<open>Notions used by the properties\<close>

text \<open>The identities of the \<open>Derived\<close> objects in the dependency tree of a cell.\<close>

fun derived_ids :: "cell \<Rightarrow> nat set" where
  "derived_ids (Store s) = {}"
| "derived_ids (Derived i deps fn) = insert i (\<Union>d \<in> set deps. derived_ids d)"

fun is_FnCall_in :: "nat set \<Rightarrow> event \<Rightarrow> bool" where
  "is_FnCall_in S (FnCall j p) = (j \<in> S)"
| "is_FnCall_in S (RecomputeCall j) = False"

text \<open>
  \<open>grows S h h'\<close>: from \<open>h\<close> to \<open>h'\<close> no store and no \<open>Derived\<close> object outside
  \<open>S\<close> has changed, and the log has only got invocations of compute functions of \<open>S\<close>.
\<close>

definition grows :: "nat set \<Rightarrow> heap \<Rightarrow> heap \<Rightarrow> bool" where
  "grows S h h' =
     (stores h' = stores h \<and> nextId h' = nextId h \<and>
      (\<forall>j. j \<notin> S \<longrightarrow> deriveds h' j = deriveds h j) \<and>
      (\<exists>evs. log h' = log h @ evs \<and> list_all (is_FnCall_in S) evs))"

definition node_ok :: "nat set \<Rightarrow> node \<Rightarrow> bool" where
  "node_ok S n = (\<forall>h. grows S h (snd (n h)))"

definition dep_ok :: "nat set \<Rightarrow> cell \<times> node \<Rightarrow> bool" where
  "dep_ok S cn = (node_ok S (snd cn) \<and> (is_Derived (fst cn) \<longrightarrow> cell_id (fst cn) \<in> S))"

text \<open>
  Reading the log: the arguments of the invocations of the compute function of cell
  \<open>i\<close>, the cells whose \<open>recompute()\<close> was called, and the part of the log that an
  operation from \<open>h\<close> to \<open>h'\<close> has written.
\<close>

fun fn_calls :: "nat \<Rightarrow> event list \<Rightarrow> fnprops list" where
  "fn_calls i [] = []"
| "fn_calls i (FnCall j p # evs) = (if j = i then p # fn_calls i evs else fn_calls i evs)"
| "fn_calls i (RecomputeCall j # evs) = fn_calls i evs"

fun recompute_calls :: "event list \<Rightarrow> nat list" where
  "recompute_calls [] = []"
| "recompute_calls (FnCall j p # evs) = recompute_calls evs"
| "recompute_calls (RecomputeCall j # evs) = j # recompute_calls evs"

definition new_log :: "heap \<Rightarrow> heap \<Rightarrow> event list" where
  "new_log h h' = drop (length (log h)) (log h')"

text \<open>The source-to-dependents table with every cell replaced by its identity.\<close>

definition registry_ids :: "sched \<Rightarrow> (nat \<times> nat list) list" where
  "registry_ids sc = map (\<lambda>(s, arr). (s, map cell_id arr)) (storeToDerived sc)"

section \<open>Concrete cells and states\<close>

text \<open>
  Compute functions: \<open>({ currDepVals }) => currDepVals[0]\<close>, a constant, and the sum
  of two dependencies.
\<close>

definition first_dep :: "fnprops \<Rightarrow> error + val" where
  "first_dep p = Inr (js_get (currDepVals p) 0)"


definition sum_fn :: "fnprops \<Rightarrow> error + val" where
  "sum_fn p = Inr (case currDepVals p of [Num n, Num m] \<Rightarrow> Num (n + m) | _ \<Rightarrow> Undefined)"

text \<open>
  A store \<open>A\<close>; \<open>B\<close>, \<open>C\<close> and \<open>E\<close> derived from \<open>A\<close>; the diamond's \<open>D\<close> derived from
  \<open>B\<close> and \<open>C\<close>; and \<open>G\<close> derived from \<open>A\<close> and \<open>B\<close>.
\<close>

abbreviation cellA :: cell where "cellA \<equiv> Store 0"
abbreviation cellB :: cell where "cellB \<equiv> Derived 1 [cellA] first_dep"
abbreviation cellC :: cell where "cellC \<equiv> Derived 2 [cellA] first_dep"
abbreviation cellD :: cell where "cellD \<equiv> Derived 3 [cellB, cellC] sum_fn"
abbreviation cellE :: cell where "cellE \<equiv> Derived 4 [cellA] first_dep"
abbreviation cellG :: cell where "cellG \<equiv> Derived 2 [cellA, cellB] sum_fn"

text \<open>\<open>B\<close> and \<open>C\<close> mounted; the diamond and \<open>E\<close> mounted.\<close>

definition c6_sched :: sched where
  "c6_sched = registerOnGraph cellC [cellA] (registerOnGraph cellB [cellA] init_sched)"

definition c6_diamond :: sched where
  "c6_diamond = registerOnGraph cellE [cellA] (registerOnGraph cellD [cellB, cellC] init_sched)"

text \<open>
  \<open>a = new Store(1); d = new Derived({ deps: [a], fn }); a.setState(2); d.mount()\<close>:
  what \<open>mount\<close> writes to the log, and the cached state of \<open>d\<close> after it.
\<close>

definition c2_run :: "variant \<Rightarrow> event list \<times> val" where
  "c2_run v =
     (case new_Store (Num 1) init_heap of (a, h1) \<Rightarrow>
      case new_Derived v [a] first_dep h1 of
        (Inl e, h2) \<Rightarrow> ([], Undefined)
      | (Inr d, h2) \<Rightarrow>
      (case setState v (cell_id a) (Value (Num 2)) (init_sched, h2) of (r3, sc3, h3) \<Rightarrow>
       case mount v d (sc3, h3) of (r4, sc4, h4) \<Rightarrow>
         (new_log h3 h4, cachedState (deriveds h4 (cell_id d)))))"


definition throwing_fn :: "fnprops \<Rightarrow> error + val" where
  "throwing_fn p = Inl (Thrown ''boom'')"

text \<open>A registry with one derived cell, whose compute function throws, under store 0.\<close>

definition c7_sched :: sched where
  "c7_sched = init_sched\<lparr>storeToDerived := [(0, [Derived 1 [Store 0] throwing_fn])],
                          derivedToStore := [(1, [0])]\<rparr>"

text \<open>
  \<open>same_core d d'\<close>: the two states of a \<open>Derived\<close> object differ at most in
  \<open>lastSeenDepValues\<close> and the two reused arrays. \<open>frame_own S i h h'\<close>: the
  dependencies (identities \<open>S\<close>) of cell \<open>i\<close> have been read, which changes \<open>i\<close> itself
  at most in those fields.
\<close>

definition same_core :: "derived_st \<Rightarrow> derived_st \<Rightarrow> bool" where
  "same_core d d' =
     (computed_memo d' = computed_memo d \<and> cachedState d' = cachedState d \<and>
      previousResult d' = previousResult d \<and> d_prevState d' = d_prevState d \<and>
      isFirstRun d' = isFirstRun d)"

definition frame_own :: "nat set \<Rightarrow> nat \<Rightarrow> heap \<Rightarrow> heap \<Rightarrow> bool" where
  "frame_own S i h h' =
     (stores h' = stores h \<and> nextId h' = nextId h \<and>
      (\<forall>j. j \<notin> S \<and> j \<noteq> i \<longrightarrow> deriveds h' j = deriveds h j) \<and>
      (\<exists>evs. log h' = log h @ evs \<and> list_all (is_FnCall_in S) evs) \<and>
      same_core (deriveds h i) (deriveds h' i))"

text \<open>
  What one run of the \<open>computed\<close> callback of a cell does: \<open>d\<close> and \<open>d'\<close> are the
  states of the cell before and after, \<open>p\<close> the argument given to the compute function
  and \<open>r\<close> its result.
\<close>

definition callback_effect ::
  "variant \<Rightarrow> (fnprops \<Rightarrow> error + val) \<Rightarrow> derived_st \<Rightarrow> derived_st \<Rightarrow> fnprops \<Rightarrow> val \<Rightarrow> bool" where
  "callback_effect v fn d d' p r =
     (fn p = Inr r \<and>
      prevVal p = (case v of EffectTs \<Rightarrow> nullish_undefined (d_prevState d)
                   | Part001 \<Rightarrow> previousResult d) \<and>
      (prevDepVals p = None) = isFirstRun d \<and>
      \<not> isFirstRun d' \<and> computed_memo d' = Some (r, currDepVals p) \<and>
      (case v of
         Part001 \<Rightarrow> d_prevState d' = cachedState d \<and> cachedState d' = r \<and> previousResult d' = r
       | EffectTs \<Rightarrow> d_prevState d' = d_prevState d \<and> cachedState d' = cachedState d))"

text \<open>
  A heap with the store \<open>A\<close> holding 1; the log of \<open>recompute()\<close> called on \<open>B\<close> right
  after its construction; and the heap in which \<open>B\<close> has been built and \<open>A\<close> then set
  to 2 (nothing is mounted).
\<close>

definition c9_heap :: heap where
  "c9_heap = snd (new_Store (Num 1) init_heap)"










text \<open>
  \<open>a = new Store(1); b = new Derived({ deps: [a], fn }); c = new Derived({ deps: [a, b], fn });
  e = new Derived({ deps: [a], fn }); ub = b.mount(); c.mount(); ub(); e.mount(); b.mount();
  a.setState(5)\<close>: the dependent list of \<open>a\<close> before the write (as identities), and
  what the write adds to the log.
\<close>

definition c5_run :: "variant \<Rightarrow> (nat \<times> nat list) list \<times> event list" where
  "c5_run v =
     (case new_Store (Num 1) init_heap of (a, h1) \<Rightarrow>
      (case new_Derived v [a] first_dep h1 of (Inl x, h2) \<Rightarrow> ([], []) | (Inr b, h2) \<Rightarrow>
      (case new_Derived v [a, b] sum_fn h2 of (Inl x, h3) \<Rightarrow> ([], []) | (Inr c, h3) \<Rightarrow>
      (case new_Derived v [a] first_dep h3 of (Inl x, h4) \<Rightarrow> ([], []) | (Inr e, h4) \<Rightarrow>
      (case mount v b (init_sched, h4) of (r5, sc5, h5) \<Rightarrow>
      (case mount v c (sc5, h5) of (r6, sc6, h6) \<Rightarrow>
      (case mount v e (unmount b sc6, h6) of (r7, sc7, h7) \<Rightarrow>
      (case mount v b (sc7, h7) of (r8, sc8, h8) \<Rightarrow>
      (case setState v (cell_id a) (Value (Num 5)) (sc8, h8) of (r9, sc9, h9) \<Rightarrow>
         (registry_ids sc8, new_log h8 h9))))))))))"

text \<open>
  The sources that the walk of \<open>registerOnGraph\<close> and \<open>unregisterFromGraph\<close> over a
  dependency list reaches, in order, one entry for every time a source is reached.
  \<open>registered sc s x\<close>: cell \<open>x\<close> is in the dependent list of source \<open>s\<close>;
  \<open>member_of sc b s\<close>: source \<open>s\<close> is in the reverse set of the derived cell \<open>b\<close>;
  \<open>reg_mono\<close>: no such entry is lost.
\<close>

fun leaf_stores :: "cell list \<Rightarrow> nat list" where
  "leaf_stores [] = []"
| "leaf_stores (Store s # deps) = s # leaf_stores deps"
| "leaf_stores (Derived j ds f # deps) = leaf_stores ds @ leaf_stores deps"

definition registered :: "sched \<Rightarrow> nat \<Rightarrow> cell \<Rightarrow> bool" where
  "registered sc s x =
     (case map_of (storeToDerived sc) s of None \<Rightarrow> False | Some arr \<Rightarrow> arr_includes arr x)"

definition member_of :: "sched \<Rightarrow> nat \<Rightarrow> nat \<Rightarrow> bool" where
  "member_of sc b s =
     (case map_of (derivedToStore sc) b of None \<Rightarrow> False | Some related \<Rightarrow> s \<in> set related)"

definition reg_mono :: "sched \<Rightarrow> sched \<Rightarrow> bool" where
  "reg_mono sc sc' =
     ((\<forall>s x. registered sc s x \<longrightarrow> registered sc' s x)
      \<and> (\<forall>b s. member_of sc b s \<longrightarrow> member_of sc' b s))"






section \<open>Termination of the flush\<close>

termination insertion_point
  by (relation "measure (\<lambda>(pivot, arr, left, right). right - left)") auto

declare insertion_point.simps [simp del]

lemma related_arrays_in_registry:
  "key_of ` set (related_arrays s2d d2s d) \<subseteq> registry_keys s2d"
proof
  fix k assume "k \<in> key_of ` set (related_arrays s2d d2s d)"
  then obtain c where c: "c \<in> set (related_arrays s2d d2s d)" and k: "k = key_of c" by blast
  from c obtain s arr where "map_of s2d s = Some arr" "c \<in> set arr"
    unfolding related_arrays_def by (auto split: option.splits) metis
  then have "(s, arr) \<in> set s2d" by (simp add: map_of_SomeD)
  with \<open>c \<in> set arr\<close> k show "k \<in> registry_keys s2d"
    unfolding registry_keys_def by force
qed

lemma finite_registry_keys: "finite (registry_keys s2d)"
  unfolding registry_keys_def by auto

lemma flush_measure_skip:
  assumes "k \<in> visited"
  shows "(R \<union> insert k W) - visited = (R \<union> W) - visited"
  using assms by blast

lemma flush_measure_step:
  assumes "k \<notin> visited" "N \<subseteq> R" "finite R" "finite W"
  shows "card ((R \<union> (N \<union> W)) - insert k visited) < card ((R \<union> insert k W) - visited)"
proof -
  have "(R \<union> (N \<union> W)) - insert k visited \<subset> (R \<union> insert k W) - visited"
    using assms(1,2) by blast
  moreover have "finite ((R \<union> insert k W) - visited)" using assms(3,4) by simp
  ultimately show ?thesis by (rule psubset_card_mono[rotated])
qed

text \<open>
  Every step of the walk either drops a visited cell from the list or visits a new
  one, and the cells that can ever be visited are those of the registry and of the list.
\<close>

termination flush_internals
proof (relation "inv_image (less_than <*lex*> less_than)
     (\<lambda>(v, s2d, d2s, visited, wl, h).
        (card ((registry_keys s2d \<union> key_of ` set wl) - visited), length wl))", goal_cases)
  case 1
  show ?case by (intro wf_inv_image wf_lex_prod wf_less_than)
next
  case (2 v s2d d2s visited derived relatedVals h)
  then show ?case by (simp add: flush_measure_skip)
next
  case (3 v s2d d2s visited derived relatedVals h x xa y)
  have "card ((registry_keys s2d \<union> (key_of ` set (related_arrays s2d d2s derived)
                \<union> key_of ` set relatedVals)) - insert (key_of derived) visited)
      < card ((registry_keys s2d \<union> insert (key_of derived) (key_of ` set relatedVals)) - visited)"
    by (rule flush_measure_step)
       (use 3 related_arrays_in_registry finite_registry_keys in simp_all)
  then show ?case by (simp add: image_Un)
qed

text \<open>The body of the \<open>while\<close> loop empties the queue and nothing in it queues a store.\<close>

termination flush_while
  by (relation "measure (\<lambda>(v, sc, h). length (pendingUpdates sc))") auto

declare flush_while.simps [simp del]

section \<open>The frame of the operations of a Derived cell\<close>

lemma grows_refl: "grows S h h"
  by (simp add: grows_def)

lemma grows_trans: "grows S h h1 \<Longrightarrow> grows S h1 h2 \<Longrightarrow> grows S h h2"
  unfolding grows_def by (elim conjE exE) (simp)

lemma is_FnCall_in_mono: "is_FnCall_in S e \<Longrightarrow> S \<subseteq> T \<Longrightarrow> is_FnCall_in T e"
  by (cases e) auto

lemma grows_mono: "grows S h h' \<Longrightarrow> S \<subseteq> T \<Longrightarrow> grows T h h'"
  unfolding grows_def list_all_iff
  by (elim conjE exE) (auto intro: is_FnCall_in_mono)

lemma grows_upd: "i \<in> S \<Longrightarrow> grows S h (upd_derived i f h)"
  by (auto simp: grows_def upd_derived_def)

lemma grows_log: "i \<in> S \<Longrightarrow> grows S h (add_log (FnCall i p) h)"
  by (simp add: grows_def add_log_def)

lemma node_okD: "node_ok S n \<Longrightarrow> n h = (r, h1) \<Longrightarrow> grows S h h1"
  unfolding node_ok_def by (metis snd_conv)

lemma check_dirty_grows:
  "list_all (node_ok S) ns \<Longrightarrow> check_dirty ns tr h = (r, h') \<Longrightarrow> grows S h h'"
proof (induction ns arbitrary: tr h)
  case Nil then show ?case by (simp add: grows_refl)
next
  case (Cons n ns)
  show ?case
  proof (cases tr)
    case Nil then show ?thesis using Cons.prems by (simp add: grows_refl)
  next
    case (Cons t tracked)
    obtain r1 h1 where n: "n h = (r1, h1)" by (cases "n h")
    have g1: "grows S h h1" using Cons.prems(1) n by (auto dest: node_okD)
    show ?thesis
    proof (cases r1)
      case (Inl e) then show ?thesis using n g1 Cons.prems(2) \<open>tr = t # tracked\<close> by simp
    next
      case (Inr x)
      show ?thesis
      proof (cases "x \<noteq> t")
        case True then show ?thesis using n Inr g1 Cons.prems(2) \<open>tr = t # tracked\<close> by simp
      next
        case False
        then have "check_dirty ns tracked h1 = (r, h')"
          using n Inr Cons.prems(2) \<open>tr = t # tracked\<close> by simp
        then have "grows S h1 h'" using Cons.IH Cons.prems(1) by simp
        then show ?thesis using g1 by (rule grows_trans[rotated])
      qed
    qed
  qed
qed

lemma memo_check_grows:
  assumes "list_all (node_ok S) ns" "memo_check ns memo h = (r, h')"
  shows "grows S h h'"
proof (cases memo)
  case None then show ?thesis using assms(2) by (simp add: memo_check_def grows_refl)
next
  case (Some m)
  obtain cv tracked where m: "m = (cv, tracked)" by (cases m)
  obtain r1 h1 where cd: "check_dirty ns tracked h = (r1, h1)" by (cases "check_dirty ns tracked h")
  then have "grows S h h1" using assms(1) by (rule check_dirty_grows[rotated])
  moreover have "h' = h1" using assms(2) Some m cd by (cases r1) (simp_all add: memo_check_def)
  ultimately show ?thesis by simp
qed

lemma getter_grows:
  assumes "node_ok S n" "is_Derived c \<longrightarrow> cell_id c \<in> S" "getter v c n h = (r, h')"
  shows "grows S h h'"
proof -
  obtain r1 h1 where n: "n h = (r1, h1)" by (cases "n h")
  then have "grows S h h1" using assms(1) by (rule node_okD[rotated])
  then show ?thesis using n assms(2,3)
    by (cases r1) (auto simp: getter_def intro: grows_trans grows_upd split: if_splits)
qed

lemma getDepVals_loop_grows:
  assumes "list_all (dep_ok S) deps" "i \<in> S" "getDepVals_loop v i deps k h = (r, h')"
  shows "grows S h h'"
  using assms
proof (induction deps arbitrary: k h r h')
  case Nil then show ?case by (simp add: grows_refl)
next
  case (Cons cn deps)
  obtain dep n where cn: "cn = (dep, n)" by (cases cn)
  define p where "p = prevState_of h dep"
  define h1 where "h1 = (if v = Part001
                then upd_derived i (\<lambda>d. d\<lparr>prevDepValsArray := js_set (prevDepValsArray d) k p\<rparr>) h
                else h)"
  have g1: "grows S h h1" using Cons.prems(2) by (simp add: h1_def grows_refl grows_upd)
  obtain r2 h2 where gt: "getter v dep n h1 = (r2, h2)" by (cases "getter v dep n h1")
  have g2: "grows S h1 h2" using getter_grows[of S n dep v h1 r2 h2] Cons.prems(1) gt cn
    by (simp add: dep_ok_def)
  show ?case
  proof (cases r2)
    case (Inl e)
    then have "h' = h2" using Cons.prems(3) gt cn
      by (simp add: p_def[symmetric] h1_def[symmetric] Let_def)
    then show ?thesis using g1 g2 by (auto intro: grows_trans)
  next
    case (Inr c)
    define h3 where "h3 = (if v = Part001
                        then upd_derived i
                               (\<lambda>d. d\<lparr>currDepValsArray := js_set (currDepValsArray d) k c\<rparr>) h2
                        else h2)"
    have g3: "grows S h2 h3" using Cons.prems(2) by (simp add: h3_def grows_refl grows_upd)
    obtain r4 h4 where lp: "getDepVals_loop v i deps (Suc k) h3 = (r4, h4)"
      by (cases "getDepVals_loop v i deps (Suc k) h3")
    have g4: "grows S h3 h4" using Cons.IH[OF _ Cons.prems(2) lp] Cons.prems(1) by simp
    have "h' = h4" using Cons.prems(3) gt cn Inr lp
      by (cases r4) (auto simp: p_def[symmetric] h1_def[symmetric] h3_def[symmetric] Let_def)
    then show ?thesis using g1 g2 g3 g4 by (blast intro: grows_trans)
  qed
qed

lemma getDepVals_result_grows:
  "i \<in> S \<Longrightarrow> getDepVals_result v i ps cs h = (props, h') \<Longrightarrow> grows S h h'"
  by (cases v) (auto simp: getDepVals_result_def Let_def grows_upd)

lemma getDepVals_nodes_grows:
  assumes "list_all (dep_ok S) deps" "i \<in> S" "getDepVals_nodes v i deps h = (r, h')"
  shows "grows S h h'"
proof -
  obtain r1 h1 where lp: "getDepVals_loop v i deps 0 h = (r1, h1)"
    by (cases "getDepVals_loop v i deps 0 h")
  have g1: "grows S h h1" using getDepVals_loop_grows[OF assms(1,2) lp] .
  show ?thesis
  proof (cases r1)
    case (Inl e) then show ?thesis using assms(3) lp g1 by (simp add: getDepVals_nodes_def)
  next
    case (Inr pc)
    obtain ps cs where pc: "pc = (ps, cs)" by (cases pc)
    obtain props h2 where gr: "getDepVals_result v i ps cs h1 = (props, h2)"
      by (cases "getDepVals_result v i ps cs h1")
    have "grows S h1 h2" using getDepVals_result_grows[OF assms(2) gr] .
    moreover have "h' = h2" using assms(3) lp Inr pc gr by (simp add: getDepVals_nodes_def)
    ultimately show ?thesis using g1 by (blast intro: grows_trans)
  qed
qed

lemma callback_finish_grows:
  assumes "i \<in> S" "callback_finish v i fn props cs h = (r, h')"
  shows "grows S h h'"
proof -
  have g1: "grows S h (add_log (FnCall i props) h)" using assms(1) by (rule grows_log)
  show ?thesis
  proof (cases "fn props")
    case (Inl e) then show ?thesis using assms(2) g1 by (simp add: callback_finish_def Let_def)
  next
    case (Inr x)
    define h1 where "h1 = add_log (FnCall i props) h"
    define h2 where "h2 = upd_derived i (\<lambda>d. d\<lparr>isFirstRun := False\<rparr>) h1"
    define h3 where "h3 = (if v = Part001
                       then upd_derived i (\<lambda>d. d\<lparr>cachedState := x, previousResult := x\<rparr>) h2
                       else h2)"
    have "h' = upd_derived i (\<lambda>d. d\<lparr>computed_memo := Some (x, cs)\<rparr>) h3"
      using assms(2) Inr by (auto simp: callback_finish_def Let_def h1_def h2_def h3_def)
    moreover have "grows S h h1" using g1 by (simp add: h1_def)
    moreover have "grows S h1 h2" using assms(1) by (simp add: h2_def grows_upd)
    moreover have "grows S h2 h3" using assms(1) by (simp add: h3_def grows_upd grows_refl)
    moreover have "grows S h3 (upd_derived i (\<lambda>d. d\<lparr>computed_memo := Some (x, cs)\<rparr>) h3)"
      using assms(1) by (rule grows_upd)
    ultimately show ?thesis by (blast intro: grows_trans)
  qed
qed

lemma computed_callback_grows:
  assumes "list_all (dep_ok S) deps" "i \<in> S" "computed_callback v i fn deps h = (r, h')"
  shows "grows S h h'"
proof -
  define h1 where "h1 = (if v = Part001
                then upd_derived i (\<lambda>d. d\<lparr>d_prevState := cachedState d\<rparr>) h
                else h)"
  have g1: "grows S h h1" using assms(2) by (simp add: h1_def grows_refl grows_upd)
  obtain r2 h2 where gd: "getDepVals_nodes v i deps h1 = (r2, h2)"
    by (cases "getDepVals_nodes v i deps h1")
  have g2: "grows S h1 h2" using getDepVals_nodes_grows[OF assms(1,2) gd] .
  show ?thesis
  proof (cases r2)
    case (Inl e)
    then show ?thesis using assms(3) gd g1 g2
      by (auto simp: computed_callback_def h1_def[symmetric] Let_def intro: grows_trans)
  next
    case (Inr props)
    then have "callback_finish v i fn props (currDepVals props) h2 = (r, h')"
      using assms(3) gd by (simp add: computed_callback_def h1_def[symmetric] Let_def)
    then have "grows S h2 h'" using assms(2) by (rule callback_finish_grows[rotated])
    then show ?thesis using g1 g2 by (blast intro: grows_trans)
  qed
qed

lemma computed_node_grows:
  assumes "list_all (dep_ok S) deps" "i \<in> S" "computed_node v i fn deps h = (r, h')"
  shows "grows S h h'"
proof -
  obtain r1 h1 where mc: "memo_check (map snd deps) (computed_memo (deriveds h i)) h = (r1, h1)"
    by (cases "memo_check (map snd deps) (computed_memo (deriveds h i)) h")
  have "list_all (node_ok S) (map snd deps)" using assms(1)
    by (simp add: list_all_iff dep_ok_def)
  then have g1: "grows S h h1" using mc by (rule memo_check_grows)
  show ?thesis
  proof (cases r1)
    case (Inl e) then show ?thesis using assms(3) mc g1 by (simp add: computed_node_def)
  next
    case (Inr o1)
    show ?thesis
    proof (cases o1)
      case (Some cv) then show ?thesis using assms(3) mc g1 Inr by (simp add: computed_node_def)
    next
      case None
      then have "computed_callback v i fn deps h1 = (r, h')"
        using assms(3) mc Inr by (simp add: computed_node_def)
      then have "grows S h1 h'" using assms(1,2) by (rule computed_callback_grows[rotated 2])
      then show ?thesis using g1 by (blast intro: grows_trans)
    qed
  qed
qed

lemma cell_id_in_derived_ids: "is_Derived c \<Longrightarrow> cell_id c \<in> derived_ids c"
  by (cases c) simp_all

lemma node_read_grows: "node_read v c h = (r, h') \<Longrightarrow> grows (derived_ids c) h h'"
proof (induction c arbitrary: h r h')
  case (Store s) then show ?case by (auto simp: grows_refl)
next
  case (Derived i deps fn)
  let ?S = "derived_ids (Derived i deps fn)"
  have "list_all (dep_ok ?S) (map (\<lambda>d. (d, node_read v d)) deps)"
    unfolding list_all_iff dep_ok_def node_ok_def
  proof (intro ballI conjI allI impI)
    fix cn h0 assume cn: "cn \<in> set (map (\<lambda>d. (d, node_read v d)) deps)"
    then obtain d where d: "d \<in> set deps" "cn = (d, node_read v d)" by auto
    have "grows (derived_ids d) h0 (snd (node_read v d h0))"
      using Derived.IH[OF d(1), of h0] by (cases "node_read v d h0") simp
    then show "grows ?S h0 (snd (snd cn h0))" using d by (auto intro: grows_mono)
  next
    fix cn assume cn: "cn \<in> set (map (\<lambda>d. (d, node_read v d)) deps)" "is_Derived (fst cn)"
    then obtain d where d: "d \<in> set deps" "cn = (d, node_read v d)" by auto
    then show "cell_id (fst cn) \<in> ?S" using cn(2) cell_id_in_derived_ids[of d] by auto
  qed
  then show ?case using Derived.prems by (auto intro: computed_node_grows)
qed

section \<open>Cleanup of a flush\<close>

lemma c7_eval: "fst (flush EffectTs 0 (c7_sched, init_heap)) = Inl (Thrown ''boom'')"
  by code_simp

text \<open>
  C7. A flush that is not queued (no batch is open and no flush is running) ends with
  the flushing flag reset, the tick-visited set empty and the batch snapshot empty,
  whether its loop returned or a compute function threw; the result of the loop, an
  exception included, is handed to the caller.
\<close>

theorem flush_cleanup:
  assumes "batchDepth sc = 0" and "\<not> isFlushing sc" and "flush v store (sc, h) = (r, sc', h')"
  shows "\<not> isFlushing sc' \<and> depsThatHaveWrittenThisTick sc' = {} \<and> initialBatchValues sc' = []
         \<and> r = fst (flush_while v
                       (sc\<lparr>pendingUpdates := set_add store (pendingUpdates sc), isFlushing := True\<rparr>) h)"
  using assms by (auto simp: flush_def Let_def split: prod.splits)

theorem flush_cleanup_witness:
  "batchDepth c7_sched = 0 \<and> \<not> isFlushing c7_sched
   \<and> fst (flush EffectTs 0 (c7_sched, init_heap)) = Inl (Thrown ''boom'')
   \<and> \<not> isFlushing (fst (snd (flush EffectTs 0 (c7_sched, init_heap))))
   \<and> depsThatHaveWrittenThisTick (fst (snd (flush EffectTs 0 (c7_sched, init_heap)))) = {}
   \<and> initialBatchValues (fst (snd (flush EffectTs 0 (c7_sched, init_heap)))) = []"
proof -
  have h1: "batchDepth c7_sched = 0" and h2: "\<not> isFlushing c7_sched"
    by (simp_all add: c7_sched_def init_sched_def)
  obtain r sc' h' where f: "flush EffectTs 0 (c7_sched, init_heap) = (r, sc', h')"
    by (cases "flush EffectTs 0 (c7_sched, init_heap)") auto
  from flush_cleanup[OF h1 h2 f] c7_eval f h1 h2 show ?thesis by simp
qed

section \<open>Evaluation of concrete states\<close>

lemmas derived_defs = new_Store_def new_Derived_def Let_def computed_read_def with_nodes_def
  computed_node_def memo_check_def computed_callback_def getDepVals_nodes_def getDepVals_result_def
  callback_finish_def getter_def upd_derived_def add_log_def fresh_derived_def init_heap_def
  state_get_def getDepVals_def check_self_def deref_def js_get_def js_set_def nullish_undefined_def
  new_log_def

lemmas registry_defs = registerOnGraph.simps register_store_def unregister_store_def set_add_def set_delete_def
  arr_includes_def same_cell_def splice_indexOf_def sort_cmp_def js_sort_def binary_insert_def
  insertion_point.simps unmount_def mount_def
  init_sched_def registry_ids_def

lemmas sched_defs = related_arrays_def key_of_def flush_def apply_update_def setState_def
  batch_exit_def flush_while.simps

section \<open>Unregistering\<close>

text \<open>
  C6 (the code at the failing input). With \<open>B\<close> and \<open>C\<close> mounted under \<open>A\<close>, the first
  \<open>unregisterFromGraph\<close> of \<open>B\<close> removes \<open>B\<close>, and the second one removes \<open>C\<close>:
  \<open>indexOf\<close> answers \<open>-1\<close> and \<open>splice(-1, 1)\<close> takes the last entry. One call is
  enough when a source is reached twice: unregistering the diamond's \<open>D\<close> removes \<open>D\<close>
  on the way through \<open>B\<close> and the entry of \<open>E\<close> on the way through \<open>C\<close>.
\<close>

theorem unregister_removes_foreign_entry:
  "registry_ids c6_sched = [(0, [1, 2])]
   \<and> registry_ids (unmount cellB c6_sched) = [(0, [2])]
   \<and> registry_ids (unmount cellB (unmount cellB c6_sched)) = [(0, [])]
   \<and> registry_ids c6_diamond = [(0, [1, 2, 3, 4])]
   \<and> registry_ids (unmount cellD c6_diamond) = [(0, [1, 2])]"
  by (simp add: c6_sched_def c6_diamond_def registry_defs)

section \<open>The staleness check on mount\<close>

text \<open>
  C2 (the code at the failing input). A derived cell is built over a store holding 1,
  the store is set to 2, and the cell is mounted. In \<open>part_001\<close>
  \<open>checkIfRecalculationNeededDeeply\<close> compares \<open>_currDepValsArray\<close> with itself, calls
  neither \<open>recompute()\<close> nor the compute function, and the cached state stays 1;
  \<open>effect.ts\<close> calls \<open>recompute()\<close>, which runs the compute function.
\<close>

theorem part001_mount_skips_recompute:
  "c2_run Part001 = ([], Num 1)
   \<and> c2_run EffectTs =
       ([RecomputeCall 1,
         FnCall 1 \<lparr>prevVal = Num 1, prevDepVals = Some [Num 1], currDepVals = [Num 2]\<rparr>], Num 2)"
  by (simp add: c2_run_def derived_defs registry_defs sched_defs first_dep_def)

section \<open>Reading dependencies and running the callback\<close>

lemma fn_calls_append: "fn_calls i (xs @ ys) = fn_calls i xs @ fn_calls i ys"
  by (induction i xs rule: fn_calls.induct) simp_all

lemma recompute_calls_append: "recompute_calls (xs @ ys) = recompute_calls xs @ recompute_calls ys"
  by (induction xs rule: recompute_calls.induct) simp_all

lemma fn_calls_outside: "list_all (is_FnCall_in S) evs \<Longrightarrow> i \<notin> S \<Longrightarrow> fn_calls i evs = []"
  by (induction i evs rule: fn_calls.induct) auto

lemma recompute_calls_FnCalls: "list_all (is_FnCall_in S) evs \<Longrightarrow> recompute_calls evs = []"
  by (induction evs rule: recompute_calls.induct) auto

lemma new_log_append: "log h' = log h @ evs \<Longrightarrow> new_log h h' = evs"
  by (simp add: new_log_def)

lemma frame_own_refl: "frame_own S i h h"
  by (simp add: frame_own_def same_core_def)

lemma frame_own_trans:
  assumes "frame_own S i h h1" "frame_own S i h1 h2"
  shows "frame_own S i h h2"
proof -
  from assms obtain e1 e2 where e: "log h1 = log h @ e1" "list_all (is_FnCall_in S) e1"
      "log h2 = log h1 @ e2" "list_all (is_FnCall_in S) e2"
    unfolding frame_own_def by blast
  have "log h2 = log h @ (e1 @ e2) \<and> list_all (is_FnCall_in S) (e1 @ e2)"
    using e by simp
  then have "\<exists>evs. log h2 = log h @ evs \<and> list_all (is_FnCall_in S) evs" by blast
  moreover have "same_core (deriveds h i) (deriveds h2 i)"
    using assms unfolding frame_own_def same_core_def by simp
  moreover have "stores h2 = stores h" "nextId h2 = nextId h"
    "\<forall>j. j \<notin> S \<and> j \<noteq> i \<longrightarrow> deriveds h2 j = deriveds h j"
    using assms unfolding frame_own_def by simp_all
  ultimately show ?thesis unfolding frame_own_def by blast
qed

lemma grows_frame_own: "grows S h h' \<Longrightarrow> i \<notin> S \<Longrightarrow> frame_own S i h h'"
  unfolding grows_def frame_own_def same_core_def by auto

lemma frame_own_prev: "frame_own S i h (upd_derived i (\<lambda>d. d\<lparr>prevDepValsArray := f d\<rparr>) h)"
  by (simp add: frame_own_def upd_derived_def same_core_def)

lemma frame_own_curr: "frame_own S i h (upd_derived i (\<lambda>d. d\<lparr>currDepValsArray := f d\<rparr>) h)"
  by (simp add: frame_own_def upd_derived_def same_core_def)

lemma frame_own_lastSeen: "frame_own S i h (upd_derived i (\<lambda>d. d\<lparr>lastSeenDepValues := x\<rparr>) h)"
  by (simp add: frame_own_def upd_derived_def same_core_def)

lemma frame_own_log:
  "frame_own S i h h' \<Longrightarrow> i \<notin> S \<Longrightarrow>
     fn_calls i (new_log h h') = [] \<and> recompute_calls (new_log h h') = []
     \<and> (\<exists>evs. log h' = log h @ evs)"
  unfolding frame_own_def
  by (auto simp: new_log_append fn_calls_outside recompute_calls_FnCalls)

lemma grows_log_outside:
  "grows S h h' \<Longrightarrow> i \<notin> S \<Longrightarrow>
     fn_calls i (new_log h h') = [] \<and> recompute_calls (new_log h h') = []
     \<and> (\<exists>evs. log h' = log h @ evs) \<and> deriveds h' i = deriveds h i"
  unfolding grows_def
  by (auto simp: new_log_append fn_calls_outside recompute_calls_FnCalls)

lemma new_log_trans:
  assumes "\<exists>evs. log h1 = log h @ evs" "\<exists>evs. log h2 = log h1 @ evs"
  shows "new_log h h2 = new_log h h1 @ new_log h1 h2"
  using assms by (auto simp: new_log_def)

lemma getDepVals_loop_frame:
  assumes "list_all (dep_ok S) deps" "i \<notin> S" "getDepVals_loop v i deps k h = (r, h')"
  shows "frame_own S i h h'"
  using assms
proof (induction deps arbitrary: k h r h')
  case Nil then show ?case by (simp add: frame_own_refl)
next
  case (Cons cn deps)
  obtain dep n where cn: "cn = (dep, n)" by (cases cn)
  define p where "p = prevState_of h dep"
  define h1 where "h1 = (if v = Part001
                then upd_derived i (\<lambda>d. d\<lparr>prevDepValsArray := js_set (prevDepValsArray d) k p\<rparr>) h
                else h)"
  have g1: "frame_own S i h h1" by (simp add: h1_def frame_own_refl frame_own_prev)
  obtain r2 h2 where gt: "getter v dep n h1 = (r2, h2)" by (cases "getter v dep n h1")
  have "grows S h1 h2" using getter_grows[of S n dep v h1 r2 h2] Cons.prems(1) gt cn
    by (simp add: dep_ok_def)
  then have g2: "frame_own S i h1 h2" using Cons.prems(2) by (rule grows_frame_own)
  show ?case
  proof (cases r2)
    case (Inl e)
    then have "h' = h2" using Cons.prems(3) gt cn
      by (simp add: p_def[symmetric] h1_def[symmetric] Let_def)
    then show ?thesis using g1 g2 by (auto intro: frame_own_trans)
  next
    case (Inr c)
    define h3 where "h3 = (if v = Part001
                        then upd_derived i
                               (\<lambda>d. d\<lparr>currDepValsArray := js_set (currDepValsArray d) k c\<rparr>) h2
                        else h2)"
    have g3: "frame_own S i h2 h3" by (simp add: h3_def frame_own_refl frame_own_curr)
    obtain r4 h4 where lp: "getDepVals_loop v i deps (Suc k) h3 = (r4, h4)"
      by (cases "getDepVals_loop v i deps (Suc k) h3")
    have g4: "frame_own S i h3 h4" using Cons.IH[OF _ Cons.prems(2) lp] Cons.prems(1) by simp
    have "h' = h4" using Cons.prems(3) gt cn Inr lp
      by (cases r4) (auto simp: p_def[symmetric] h1_def[symmetric] h3_def[symmetric] Let_def)
    then show ?thesis using g1 g2 g3 g4 by (blast intro: frame_own_trans)
  qed
qed

lemma getDepVals_nodes_frame:
  assumes "list_all (dep_ok S) deps" "i \<notin> S" "getDepVals_nodes v i deps h = (r, h')"
  shows "frame_own S i h h'"
    and "r = Inr props \<Longrightarrow>
           prevVal props = (case v of EffectTs \<Rightarrow> nullish_undefined (d_prevState (deriveds h i))
                            | Part001 \<Rightarrow> previousResult (deriveds h i))
           \<and> (prevDepVals props = None) = isFirstRun (deriveds h i)"
proof -
  obtain r1 h1 where lp: "getDepVals_loop v i deps 0 h = (r1, h1)"
    by (cases "getDepVals_loop v i deps 0 h")
  have g1: "frame_own S i h h1" using getDepVals_loop_frame[OF assms(1,2) lp] .
  then have sc: "same_core (deriveds h i) (deriveds h1 i)" by (simp add: frame_own_def)
  show "frame_own S i h h'"
  proof (cases r1)
    case (Inl e) then show ?thesis using assms(3) lp g1 by (simp add: getDepVals_nodes_def)
  next
    case (Inr pc)
    obtain ps cs where pc: "pc = (ps, cs)" by (cases pc)
    have "frame_own S i h1 h'" using assms(3) lp Inr pc
      by (cases v) (auto simp: getDepVals_nodes_def getDepVals_result_def Let_def frame_own_lastSeen)
    then show ?thesis using g1 by (blast intro: frame_own_trans)
  qed
  show "prevVal props = (case v of EffectTs \<Rightarrow> nullish_undefined (d_prevState (deriveds h i))
                            | Part001 \<Rightarrow> previousResult (deriveds h i))
           \<and> (prevDepVals props = None) = isFirstRun (deriveds h i)" if "r = Inr props"
  proof (cases r1)
    case (Inl e) then show ?thesis using assms(3) lp that by (simp add: getDepVals_nodes_def)
  next
    case (Inr pc)
    obtain ps cs where pc: "pc = (ps, cs)" by (cases pc)
    show ?thesis using assms(3) lp Inr pc that sc
      by (cases v) (auto simp: getDepVals_nodes_def getDepVals_result_def Let_def upd_derived_def
                      same_core_def)
  qed
qed

lemma computed_callback_result:
  assumes ok: "list_all (dep_ok S) deps" and i: "i \<notin> S"
    and cb: "computed_callback v i fn deps h = (Inr r, h')"
  shows "\<exists>p. fn_calls i (new_log h h') = [p] \<and> recompute_calls (new_log h h') = []
             \<and> callback_effect v fn (deriveds h i) (deriveds h' i) p r
             \<and> (\<exists>evs. log h' = log h @ evs)"
proof -
  define h1 where "h1 = (if v = Part001
                then upd_derived i (\<lambda>d. d\<lparr>d_prevState := cachedState d\<rparr>) h
                else h)"
  obtain r2 h2 where gd: "getDepVals_nodes v i deps h1 = (r2, h2)"
    by (cases "getDepVals_nodes v i deps h1")
  have f2: "frame_own S i h1 h2" using getDepVals_nodes_frame(1)[OF ok i gd] .
  obtain props where r2: "r2 = Inr props"
    using cb gd by (cases r2) (auto simp: computed_callback_def h1_def[symmetric] Let_def)
  have pv: "prevVal props = (case v of EffectTs \<Rightarrow> nullish_undefined (d_prevState (deriveds h1 i))
                            | Part001 \<Rightarrow> previousResult (deriveds h1 i))
           \<and> (prevDepVals props = None) = isFirstRun (deriveds h1 i)"
    using getDepVals_nodes_frame(2)[OF ok i gd r2] .
  have cf: "callback_finish v i fn props (currDepVals props) h2 = (Inr r, h')"
    using cb gd r2 by (simp add: computed_callback_def h1_def[symmetric] Let_def)
  then have fnp: "fn props = Inr r"
    by (cases "fn props") (auto simp: callback_finish_def Let_def)
  have l1: "log h1 = log h" by (simp add: h1_def upd_derived_def)
  obtain evs where evs: "log h2 = log h1 @ evs" "list_all (is_FnCall_in S) evs"
    using f2 unfolding frame_own_def by blast
  have l3: "log h' = log h2 @ [FnCall i props]"
    using cf fnp by (auto simp: callback_finish_def Let_def add_log_def upd_derived_def)
  have lg: "new_log h h' = evs @ [FnCall i props]"
    using l1 evs(1) l3 by (simp add: new_log_def)
  have sc: "same_core (deriveds h1 i) (deriveds h2 i)" using f2 by (simp add: frame_own_def)
  have "callback_effect v fn (deriveds h i) (deriveds h' i) props r"
    using cf fnp pv sc
    by (cases v)
       (auto simp: callback_effect_def callback_finish_def Let_def add_log_def upd_derived_def
          same_core_def h1_def)
  moreover have "fn_calls i (new_log h h') = [props]"
    using lg evs(2) i by (simp add: fn_calls_append fn_calls_outside)
  moreover have "recompute_calls (new_log h h') = []"
    using lg evs(2) by (simp add: recompute_calls_append recompute_calls_FnCalls)
  moreover have "\<exists>evs. log h' = log h @ evs" using l1 evs(1) l3 by simp
  ultimately show ?thesis by blast
qed

lemma computed_node_result:
  assumes ok: "list_all (dep_ok S) deps" and i: "i \<notin> S"
    and cn: "computed_node v i fn deps h = (Inr r, h')"
  shows "recompute_calls (new_log h h') = [] \<and> (\<exists>evs. log h' = log h @ evs) \<and>
         ((fn_calls i (new_log h h') = [] \<and> deriveds h' i = deriveds h i
             \<and> (\<exists>tr. computed_memo (deriveds h i) = Some (r, tr)))
          \<or> (\<exists>p. fn_calls i (new_log h h') = [p]
                 \<and> callback_effect v fn (deriveds h i) (deriveds h' i) p r))"
proof -
  obtain r1 h1 where mc: "memo_check (map snd deps) (computed_memo (deriveds h i)) h = (r1, h1)"
    by (cases "memo_check (map snd deps) (computed_memo (deriveds h i)) h")
  have "list_all (node_ok S) (map snd deps)" using ok
    by (simp add: list_all_iff dep_ok_def)
  then have g1: "grows S h h1" using mc by (rule memo_check_grows)
  note o1 = grows_log_outside[OF g1 i]
  show ?thesis
  proof (cases r1)
    case (Inl e) then show ?thesis using cn mc by (simp add: computed_node_def)
  next
    case (Inr o1')
    show ?thesis
    proof (cases o1')
      case (Some cv)
      then have "h' = h1" "r = cv" using cn mc Inr by (simp_all add: computed_node_def)
      moreover have "\<exists>tr. computed_memo (deriveds h i) = Some (cv, tr)"
        using mc Inr Some
        by (cases "computed_memo (deriveds h i)")
           (auto simp: memo_check_def split: prod.splits sum.splits if_splits)
      ultimately show ?thesis using o1 by simp
    next
      case None
      then have cb: "computed_callback v i fn deps h1 = (Inr r, h')"
        using cn mc Inr by (simp add: computed_node_def)
      from computed_callback_result[OF ok i cb] obtain p where
        p: "fn_calls i (new_log h1 h') = [p]" "recompute_calls (new_log h1 h') = []"
           "callback_effect v fn (deriveds h1 i) (deriveds h' i) p r"
           "\<exists>evs. log h' = log h1 @ evs" by blast
      have nl: "new_log h h' = new_log h h1 @ new_log h1 h'"
        using o1 p(4) by (intro new_log_trans) auto
      have "\<exists>evs. log h' = log h @ evs" using o1 p(4) by auto
      then show ?thesis using p o1 nl by (simp add: fn_calls_append recompute_calls_append)
    qed
  qed
qed

lemma with_nodes_ok: "list_all (dep_ok (\<Union>d \<in> set deps. derived_ids d)) (with_nodes v deps)"
  unfolding list_all_iff dep_ok_def node_ok_def with_nodes_def
proof (intro ballI conjI allI impI)
  fix cn h0 assume "cn \<in> set (map (\<lambda>d. (d, node_read v d)) deps)"
  then obtain d where d: "d \<in> set deps" "cn = (d, node_read v d)" by auto
  have "grows (derived_ids d) h0 (snd (node_read v d h0))"
    using node_read_grows[of v d h0] by (cases "node_read v d h0") simp
  then show "grows (\<Union>d \<in> set deps. derived_ids d) h0 (snd (snd cn h0))"
    using d by (auto intro: grows_mono)
next
  fix cn assume cn: "cn \<in> set (map (\<lambda>d. (d, node_read v d)) deps)" "is_Derived (fst cn)"
  then obtain d where d: "d \<in> set deps" "cn = (d, node_read v d)" by auto
  then show "cell_id (fst cn) \<in> (\<Union>d \<in> set deps. derived_ids d)"
    using cn(2) cell_id_in_derived_ids[of d] by auto
qed

lemma computed_read_result:
  assumes i: "i \<notin> (\<Union>d \<in> set deps. derived_ids d)"
    and cr: "computed_read v i deps fn h = (Inr r, h')"
  shows "recompute_calls (new_log h h') = [] \<and> (\<exists>evs. log h' = log h @ evs) \<and>
         ((fn_calls i (new_log h h') = [] \<and> deriveds h' i = deriveds h i
             \<and> (\<exists>tr. computed_memo (deriveds h i) = Some (r, tr)))
          \<or> (\<exists>p. fn_calls i (new_log h h') = [p]
                 \<and> callback_effect v fn (deriveds h i) (deriveds h' i) p r))"
  using computed_node_result[OF with_nodes_ok i] cr unfolding computed_read_def by blast

section \<open>recompute\<close>




section \<open>The constructor\<close>

text \<open>
  C9. The \<open>Derived\<close> constructor invokes the compute function exactly once, with
  \<open>prevDepVals\<close> (and \<open>prevVal\<close>) undefined, and caches its result; the first-run
  flag is then cleared, and a later read of the cell that runs the compute function
  passes \<open>prevDepVals\<close>.
\<close>

theorem derived_constructor_computes_once:
  assumes fresh: "nextId h \<notin> (\<Union>d \<in> set deps. derived_ids d)"
    and new: "new_Derived v deps fn h = (Inr c, h')"
  shows "c = Derived (nextId h) deps fn
         \<and> (\<exists>p r. fn_calls (nextId h) (new_log h h') = [p] \<and> prevDepVals p = None
                  \<and> prevVal p = Undefined \<and> fn p = Inr r
                  \<and> cachedState (deriveds h' (nextId h)) = r)
         \<and> \<not> isFirstRun (deriveds h' (nextId h))
         \<and> (\<forall>h2 x h3. \<not> isFirstRun (deriveds h2 (nextId h)) \<longrightarrow> state_get v c h2 = (Inr x, h3) \<longrightarrow>
                (\<forall>p \<in> set (fn_calls (nextId h) (new_log h2 h3)). prevDepVals p \<noteq> None)
                \<and> \<not> isFirstRun (deriveds h3 (nextId h)))"
proof -
  define i where "i = nextId h"
  define h1 where "h1 = h\<lparr>deriveds := (deriveds h)(i := fresh_derived v (length deps)), nextId := Suc i\<rparr>"
  obtain r2 h2 where cr: "computed_read v i deps fn h1 = (r2, h2)"
    by (cases "computed_read v i deps fn h1")
  obtain r where r2: "r2 = Inr r"
    using new cr by (cases r2) (auto simp: new_Derived_def Let_def i_def h1_def)
  have c: "c = Derived i deps fn"
    using new cr r2 by (auto simp: new_Derived_def Let_def i_def h1_def)
  have h': "h' = (if v = Part001 then upd_derived i (\<lambda>d. d\<lparr>d_prevState := cachedState d\<rparr>) else id)
                   (upd_derived i (\<lambda>d. d\<lparr>cachedState := r\<rparr>) h2)"
    using new cr r2 by (auto simp: new_Derived_def Let_def i_def h1_def)
  have wf: "i \<notin> (\<Union>d \<in> set deps. derived_ids d)" using fresh by (simp add: i_def)
  note res = computed_read_result[OF wf cr[unfolded r2]]
  have d1: "deriveds h1 i = fresh_derived v (length deps)" by (simp add: h1_def)
  have l1: "log h1 = log h" by (simp add: h1_def)
  have l': "log h' = log h2" using h' by (simp add: upd_derived_def)
  have nl: "new_log h h' = new_log h1 h2" using l1 l' by (simp add: new_log_def)
  from res d1 obtain p where p: "fn_calls i (new_log h1 h2) = [p]"
      "callback_effect v fn (fresh_derived v (length deps)) (deriveds h2 i) p r"
    by (auto simp: fresh_derived_def)
  have a: "prevDepVals p = None \<and> prevVal p = Undefined \<and> fn p = Inr r
           \<and> \<not> isFirstRun (deriveds h2 i)"
    using p(2) by (cases v) (auto simp: callback_effect_def fresh_derived_def nullish_undefined_def)
  have b: "cachedState (deriveds h' i) = r \<and> isFirstRun (deriveds h' i) = isFirstRun (deriveds h2 i)"
    using h' by (simp add: upd_derived_def)
  have later: "(\<forall>p \<in> set (fn_calls i (new_log ha hb)). prevDepVals p \<noteq> None)
                \<and> \<not> isFirstRun (deriveds hb i)"
    if nf: "\<not> isFirstRun (deriveds ha i)" and sg: "state_get v c ha = (Inr x, hb)" for ha x hb
  proof -
    obtain r3 h3 where nr: "computed_read v i deps fn ha = (r3, h3)"
      by (cases "computed_read v i deps fn ha")
    have r3: "r3 = Inr x" and hb: "hb = (if v = EffectTs then upd_derived i (\<lambda>d. d\<lparr>cachedState := x\<rparr>) h3 else h3)"
      using sg nr c
      by (cases r3; auto simp: state_get_def getter_def computed_read_def with_nodes_def)+
    note res3 = computed_read_result[OF wf nr[unfolded r3]]
    have "log hb = log h3" "isFirstRun (deriveds hb i) = isFirstRun (deriveds h3 i)"
      using hb by (simp_all add: upd_derived_def)
    then have "new_log ha hb = new_log ha h3" by (simp add: new_log_def)
    then show ?thesis using res3 nf \<open>isFirstRun (deriveds hb i) = isFirstRun (deriveds h3 i)\<close>
      by (auto simp: callback_effect_def)
  qed
  show ?thesis
    using c p(1) a b nl later unfolding i_def[symmetric] by auto
qed

theorem derived_constructor_computes_once_witness:
  "nextId c9_heap \<notin> (\<Union>d \<in> set [cellA]. derived_ids d)
   \<and> fst (new_Derived Part001 [cellA] first_dep c9_heap) = Inr cellB
   \<and> fn_calls 1 (new_log c9_heap (snd (new_Derived Part001 [cellA] first_dep c9_heap)))
       = [\<lparr>prevVal = Undefined, prevDepVals = None, currDepVals = [Num 1]\<rparr>]
   \<and> cachedState (deriveds (snd (new_Derived Part001 [cellA] first_dep c9_heap)) 1) = Num 1
   \<and> \<not> isFirstRun (deriveds (snd (new_Derived Part001 [cellA] first_dep c9_heap)) 1)"
proof -
  have fresh: "nextId c9_heap \<notin> (\<Union>d \<in> set [cellA]. derived_ids d)" by simp
  have e: "fst (new_Derived Part001 [cellA] first_dep c9_heap) = Inr cellB"
    "fn_calls 1 (new_log c9_heap (snd (new_Derived Part001 [cellA] first_dep c9_heap)))
       = [\<lparr>prevVal = Undefined, prevDepVals = None, currDepVals = [Num 1]\<rparr>]"
    "cachedState (deriveds (snd (new_Derived Part001 [cellA] first_dep c9_heap)) 1) = Num 1"
    "nextId c9_heap = 1"
    by (simp_all add: c9_heap_def derived_defs first_dep_def)
  then obtain h' where new: "new_Derived Part001 [cellA] first_dep c9_heap = (Inr cellB, h')"
    by (cases "new_Derived Part001 [cellA] first_dep c9_heap") simp
  from derived_constructor_computes_once[OF fresh new] e new show ?thesis by simp
qed

section \<open>The walk of a flush\<close>

lemma computed_read_grows:
  assumes "computed_read v i deps fn h = (r, h')"
  shows "grows (derived_ids (Derived i deps fn)) h h'"
  using node_read_grows[of v "Derived i deps fn" h r h'] assms
  by (simp add: computed_read_def with_nodes_def)

lemma recompute_shape:
  assumes "recompute v c h = (r, h')"
  shows "stores h' = stores h \<and> nextId h' = nextId h
         \<and> (\<forall>j. j \<notin> derived_ids c \<longrightarrow> deriveds h' j = deriveds h j)
         \<and> (\<exists>evs. log h' = log h @ (if is_Derived c then [RecomputeCall (cell_id c)] else []) @ evs
                  \<and> list_all (is_FnCall_in (derived_ids c)) evs)"
proof (cases c)
  case (Store s) then show ?thesis using assms by simp
next
  case (Derived i deps fn)
  define h0 where "h0 = add_log (RecomputeCall i) h"
  define h1 where "h1 = (case v of EffectTs \<Rightarrow> upd_derived i (\<lambda>d. d\<lparr>d_prevState := cachedState d\<rparr>) h0
                          | Part001 \<Rightarrow> h0)"
  obtain r2 h2 where cr: "computed_read v i deps fn h1 = (r2, h2)"
    by (cases "computed_read v i deps fn h1")
  have g: "grows (derived_ids c) h1 h2" using computed_read_grows[OF cr] Derived by simp
  have fr1: "stores h1 = stores h \<and> nextId h1 = nextId h
     \<and> (\<forall>j. j \<notin> derived_ids c \<longrightarrow> deriveds h1 j = deriveds h j)
     \<and> log h1 = log h @ [RecomputeCall i]"
    using Derived by (cases v) (auto simp: h0_def h1_def add_log_def upd_derived_def)
  have fr2: "stores h' = stores h2 \<and> nextId h' = nextId h2
     \<and> (\<forall>j. j \<notin> derived_ids c \<longrightarrow> deriveds h' j = deriveds h2 j) \<and> log h' = log h2"
    using assms cr Derived
    by (cases v; cases r2) (auto simp: h0_def h1_def Let_def upd_derived_def)
  from g obtain evs where "log h2 = log h1 @ evs" "list_all (is_FnCall_in (derived_ids c)) evs"
    unfolding grows_def by blast
  then have "log h' = log h @ (if is_Derived c then [RecomputeCall (cell_id c)] else []) @ evs
                  \<and> list_all (is_FnCall_in (derived_ids c)) evs"
    using fr1 fr2 Derived by simp
  moreover have "stores h' = stores h \<and> nextId h' = nextId h
         \<and> (\<forall>j. j \<notin> derived_ids c \<longrightarrow> deriveds h' j = deriveds h j)"
    using fr1 fr2 g unfolding grows_def by simp
  ultimately show ?thesis by blast
qed


lemma key_of_Derived: "is_Derived c \<Longrightarrow> key_of c = (True, cell_id c)"
  by (simp add: key_of_def)

lemma key_of_Store: "\<not> is_Derived c \<Longrightarrow> key_of c = (False, cell_id c)"
  by (simp add: key_of_def)







lemma commit_prevStates_log: "log (commit_prevStates ibv queued h) = log h"
  by (induction ibv queued h rule: commit_prevStates.induct) (simp_all add: Let_def)




lemma flush_while_empty: "pendingUpdates sc = [] \<Longrightarrow> flush_while v sc h = (Inr (), sc, h)"
  by (simp add: flush_while.simps)

lemma flush_idle:
  assumes "batchDepth sc = 0" "\<not> isFlushing sc" "pendingUpdates sc = []"
    and "map_of (storeToDerived sc) a = Some arr"
    and "flush_internals v (storeToDerived sc) (derivedToStore sc)
           (insert (False, a) (depsThatHaveWrittenThisTick sc)) arr
           (commit_prevStates (initialBatchValues sc) [a] h) = (r, vis', h')"
  shows "flush v a (sc, h) =
           (r, sc\<lparr>pendingUpdates := [], isFlushing := False, depsThatHaveWrittenThisTick := {},
                   initialBatchValues := []\<rparr>, h')"
proof (cases r)
  case (Inl e)
  then show ?thesis using assms
    by (simp add: flush_def Let_def set_add_def flush_while.simps[of v "sc\<lparr>pendingUpdates := [a], isFlushing := True\<rparr>"])
next
  case (Inr u)
  then show ?thesis using assms
    by (simp add: flush_def Let_def set_add_def flush_while_empty
          flush_while.simps[of v "sc\<lparr>pendingUpdates := [a], isFlushing := True\<rparr>"])
qed






lemma commit_prevStates_idle: "commit_prevStates [] queued h = h\<lparr>stores := stores h\<rparr>"
  by (induction queued arbitrary: h) (simp_all add: Let_def)



section \<open>At most one recomputation per flush\<close>





section \<open>Batching\<close>


section \<open>The diamond\<close>
















section \<open>The order of siblings\<close>

lemma mount_registry: "fst (snd (mount v c (sc, h))) = registerOnGraph c (deps_of c) sc"
  by (simp add: mount_def Let_def split: prod.splits)

lemma sibling_registry:
  assumes "b \<noteq> c"
    and "depsC = [Store a, Derived b [Store a] f] \<or> depsC = [Derived b [Store a] f, Store a]"
    and "sc = registerOnGraph (Derived c depsC g) depsC
                (registerOnGraph (Derived b [Store a] f) [Store a] init_sched)
         \<or> sc = registerOnGraph (Derived b [Store a] f) [Store a]
                (registerOnGraph (Derived c depsC g) depsC init_sched)"
  shows "storeToDerived sc = [(a, [Derived b [Store a] f, Derived c depsC g])]"
    and "map_of (derivedToStore sc) b = Some [a]" and "map_of (derivedToStore sc) c = Some [a]"
    and "batchDepth sc = 0" and "\<not> isFlushing sc" and "pendingUpdates sc = []"
    and "depsThatHaveWrittenThisTick sc = {}" and "initialBatchValues sc = []"
  using assms by (auto simp: registry_defs)

lemma flush_two_siblings:
  assumes bc: "b \<noteq> c"
    and B: "B = Derived b depsB f" and C: "C = Derived c depsC g"
    and s2d: "map_of s2d a = Some [B, C]"
    and d2s: "map_of d2s b = Some [a]" "map_of d2s c = Some [a]"
    and fi: "flush_internals v s2d d2s {(False, a)} [B, C] h = (r, vis', h')"
  shows "\<exists>evsB rest. new_log h h' = RecomputeCall b # evsB @ rest
            \<and> list_all (is_FnCall_in (derived_ids B)) evsB
            \<and> (rest = [] \<or> (\<exists>evsC. rest = RecomputeCall c # evsC
                                 \<and> list_all (is_FnCall_in (derived_ids C)) evsC))
            \<and> (r = Inr () \<longrightarrow> rest \<noteq> [])"
proof -
  have kB: "key_of B = (True, b)" and kC: "key_of C = (True, c)"
    by (simp_all add: B C key_of_def)
  have relB: "related_arrays s2d d2s B = [B, C]" and relC: "related_arrays s2d d2s C = [B, C]"
    using s2d d2s by (simp_all add: related_arrays_def B C)
  obtain rB hB where rcB: "recompute v B h = (rB, hB)" by (cases "recompute v B h")
  from recompute_shape[OF rcB] obtain evsB where
    eB: "log hB = log h @ [RecomputeCall b] @ evsB" "list_all (is_FnCall_in (derived_ids B)) evsB"
    by (auto simp: B)
  show ?thesis
  proof (cases rB)
    case (Inl e)
    then have "h' = hB" "r = Inl e" using fi rcB kB by simp_all
    then have "new_log h h' = RecomputeCall b # evsB @ []" using eB(1) by (simp add: new_log_def)
    then show ?thesis using eB(2) \<open>r = Inl e\<close> by blast
  next
    case (Inr u)
    obtain rC hC where rcC: "recompute v C hB = (rC, hC)" by (cases "recompute v C hB")
    from recompute_shape[OF rcC] obtain evsC where
      eC: "log hC = log hB @ [RecomputeCall c] @ evsC" "list_all (is_FnCall_in (derived_ids C)) evsC"
      by (auto simp: C)
    have "h' = hC"
      using fi rcB rcC Inr kB kC relB relC bc by (cases rC) simp_all
    then have "new_log h h' = RecomputeCall b # evsB @ (RecomputeCall c # evsC)"
      using eB(1) eC(1) by (simp add: new_log_def)
    then show ?thesis using eB(2) eC(2) by blast
  qed
qed

text \<open>
  When the registry holds only \<open>B\<close>, computed from the source \<open>A\<close>, and \<open>C\<close>,
  computed from \<open>A\<close> and \<open>B\<close> (its dependency list holds both, in either order), both
  registered in either order, the dependent list of \<open>A\<close> is \<open>[B, C]\<close>, and a write to
  \<open>A\<close> logs \<open>recompute()\<close> of \<open>B\<close> with the runs of \<open>B\<close>'s compute function first,
  and only then \<open>recompute()\<close> of \<open>C\<close> and the runs it causes.
\<close>

lemma sibling_recomputed_first:
  assumes bc: "b \<noteq> c"
    and deps: "depsC = [Store a, Derived b [Store a] f] \<or> depsC = [Derived b [Store a] f, Store a]"
    and mounted:
      "sc = registerOnGraph (Derived c depsC g) depsC
                (registerOnGraph (Derived b [Store a] f) [Store a] init_sched)
       \<or> sc = registerOnGraph (Derived b [Store a] f) [Store a]
                (registerOnGraph (Derived c depsC g) depsC init_sched)"
    and wr: "setState v a u (sc, h) = (r, sc', h')"
  shows "storeToDerived sc = [(a, [Derived b [Store a] f, Derived c depsC g])]
         \<and> (\<exists>evsB rest. new_log h h' = RecomputeCall b # evsB @ rest
               \<and> list_all (is_FnCall_in {b}) evsB
               \<and> (rest = [] \<or> (\<exists>evsC. rest = RecomputeCall c # evsC
                                    \<and> list_all (is_FnCall_in {b, c}) evsC))
               \<and> (r = Inr () \<longrightarrow> rest \<noteq> []))"
proof -
  note reg = sibling_registry[OF bc deps mounted]
  let ?B = "Derived b [Store a] f" and ?C = "Derived c depsC g"
  define nxt where "nxt = (case u of Updater f \<Rightarrow> f (s_state (stores h a)) | Value x \<Rightarrow> x)"
  define h1 where "h1 = h\<lparr>stores := (stores h)(a := \<lparr>s_state = nxt, s_prevState = s_state (stores h a)\<rparr>)\<rparr>"
  define h0 where "h0 = commit_prevStates (initialBatchValues sc) [a] h1"
  have l0: "log h0 = log h" by (simp add: h0_def h1_def commit_prevStates_log)
  have m: "map_of (storeToDerived sc) a = Some [?B, ?C]" using reg(1) by simp
  have fl: "flush v a (sc, h1) = (r, sc', h')"
    using wr reg(4) m by (simp add: setState_def apply_update_def Let_def h1_def nxt_def)
  obtain r1 vis1 hh where fi: "flush_internals v (storeToDerived sc) (derivedToStore sc)
           (insert (False, a) (depsThatHaveWrittenThisTick sc)) [?B, ?C] h0 = (r1, vis1, hh)"
    by (cases "flush_internals v (storeToDerived sc) (derivedToStore sc)
           (insert (False, a) (depsThatHaveWrittenThisTick sc)) [?B, ?C] h0") auto
  from flush_idle[OF reg(4,5,6) m fi[unfolded h0_def]] fl have "r1 = r" "hh = h'" by simp_all
  then have fi': "flush_internals v (storeToDerived sc) (derivedToStore sc) {(False, a)}
                    [?B, ?C] h0 = (r, vis1, h')"
    using fi reg(7) by simp
  have dC: "derived_ids ?C = {b, c}" using deps by auto
  from flush_two_siblings[OF bc refl refl m reg(2,3) fi']
  have "\<exists>evsB rest. new_log h0 h' = RecomputeCall b # evsB @ rest
            \<and> list_all (is_FnCall_in {b}) evsB
            \<and> (rest = [] \<or> (\<exists>evsC. rest = RecomputeCall c # evsC
                                 \<and> list_all (is_FnCall_in {b, c}) evsC))
            \<and> (r = Inr () \<longrightarrow> rest \<noteq> [])"
    unfolding dC by simp
  moreover have "new_log h0 h' = new_log h h'" using l0 by (simp add: new_log_def)
  ultimately show ?thesis using reg(1) by simp
qed

text \<open>
  C5 (the code at the failing input). \<open>B\<close> is computed from \<open>A\<close>, \<open>C\<close> from \<open>A\<close> and
  \<open>B\<close>, \<open>E\<close> from \<open>A\<close>. \<open>B\<close> and \<open>C\<close> are mounted, \<open>B\<close> is unmounted, \<open>E\<close> is
  mounted and \<open>B\<close> is mounted again. The sort that follows the last registration
  compares \<open>E\<close> with \<open>C\<close> and \<open>B\<close> with \<open>E\<close>, gets 0 both times and leaves the
  dependent list of \<open>A\<close> as \<open>[C, E, B]\<close>: \<open>C\<close>, whose dependency list includes \<open>B\<close>,
  stays before \<open>B\<close>. Both cells are mounted, and a write to \<open>A\<close> calls \<open>recompute()\<close>
  on \<open>C\<close> first and on \<open>B\<close> last, in either class; in \<open>effect.ts\<close> the compute
  function of \<open>C\<close> then gets \<open>undefined\<close> as the previous value of \<open>B\<close>.
\<close>

theorem sort_leaves_dependent_first:
  "c5_run EffectTs =
     ([(0, [2, 3, 1])],
      [RecomputeCall 2,
       FnCall 1 \<lparr>prevVal = Undefined, prevDepVals = Some [Num 1], currDepVals = [Num 5]\<rparr>,
       FnCall 2 \<lparr>prevVal = Num 2, prevDepVals = Some [Num 1, Undefined],
                 currDepVals = [Num 5, Num 5]\<rparr>,
       RecomputeCall 3,
       FnCall 3 \<lparr>prevVal = Num 1, prevDepVals = Some [Num 1], currDepVals = [Num 5]\<rparr>,
       RecomputeCall 1])
   \<and> c5_run Part001 =
     ([(0, [2, 3, 1])],
      [RecomputeCall 2,
       FnCall 1 \<lparr>prevVal = Num 1, prevDepVals = Some [Num 1], currDepVals = [Num 5]\<rparr>,
       FnCall 2 \<lparr>prevVal = Num 2, prevDepVals = Some [Num 1, Num 1],
                 currDepVals = [Num 5, Num 5]\<rparr>,
       RecomputeCall 3,
       FnCall 3 \<lparr>prevVal = Num 1, prevDepVals = Some [Num 1], currDepVals = [Num 5]\<rparr>,
       RecomputeCall 1])"
  by (simp add: c5_run_def derived_defs registry_defs sched_defs first_dep_def sum_fn_def)

section \<open>Registering and unregistering a nested dependency\<close>

lemma reg_mono_refl: "reg_mono sc sc"
  by (simp add: reg_mono_def)

lemma reg_mono_trans: "reg_mono sc sc1 \<Longrightarrow> reg_mono sc1 sc2 \<Longrightarrow> reg_mono sc sc2"
  by (simp add: reg_mono_def)

lemma arr_includes_iff: "arr_includes arr c \<longleftrightarrow> (\<exists>y \<in> set arr. same_cell c y)"
  by (simp add: arr_includes_def list_ex_iff)

lemma set_take_drop: "set (take n xs) \<union> set (drop n xs) = set xs"
  by (metis append_take_drop_id set_append)

lemma set_binary_insert: "set (binary_insert run pivot) = insert pivot (set run)"
  by (simp add: binary_insert_def Let_def set_take_drop)

lemma set_foldl_binary_insert: "set (foldl binary_insert run rest) = set run \<union> set rest"
  by (induction rest arbitrary: run) (simp_all add: set_binary_insert)

lemma set_make_run: "make_run arr = (run, rest) \<Longrightarrow> set run \<union> set rest = set arr"
proof (induction arr rule: make_run.induct)
  case (1 a b xs)
  show ?case
  proof (cases "sort_cmp b a < 0")
    case True
    then have "run = rev (take (Suc (Suc (run_desc b xs))) (a # b # xs))"
      "rest = drop (Suc (Suc (run_desc b xs))) (a # b # xs)" using 1 by (simp_all add: Let_def)
    then have "set run \<union> set rest = set (take (Suc (Suc (run_desc b xs))) (a # b # xs))
                 \<union> set (drop (Suc (Suc (run_desc b xs))) (a # b # xs))" by auto
    then show ?thesis unfolding set_take_drop .
  next
    case False
    then have "run = take (Suc (Suc (run_asc b xs))) (a # b # xs)"
      "rest = drop (Suc (Suc (run_asc b xs))) (a # b # xs)" using 1 by (simp_all add: Let_def)
    then have "set run \<union> set rest = set (take (Suc (Suc (run_asc b xs))) (a # b # xs))
                 \<union> set (drop (Suc (Suc (run_asc b xs))) (a # b # xs))" by simp
    then show ?thesis unfolding set_take_drop .
  qed
qed simp_all

lemma set_js_sort: "set (js_sort arr) = set arr"
proof -
  obtain run rest where m: "make_run arr = (run, rest)" by (cases "make_run arr")
  then show ?thesis using set_make_run[OF m] by (simp add: js_sort_def set_foldl_binary_insert)
qed

lemma sort_all_mono: "reg_mono sc (sort_all toSort sc)"
proof (induction toSort arbitrary: sc)
  case Nil show ?case by (simp add: reg_mono_refl)
next
  case (Cons s toSort)
  define sc1 where "sc1 = (case map_of (storeToDerived sc) s of
          None \<Rightarrow> sc
        | Some arr \<Rightarrow> sc\<lparr>storeToDerived := AList.update s (js_sort arr) (storeToDerived sc)\<rparr>)"
  have "reg_mono sc sc1"
    unfolding reg_mono_def registered_def member_of_def sc1_def
    by (auto simp: update_conv' arr_includes_iff set_js_sort split: option.splits)
  moreover have "reg_mono sc1 (sort_all toSort sc1)" by (rule Cons.IH)
  ultimately show ?case by (simp add: sc1_def[symmetric] reg_mono_trans)
qed

lemma register_store_maps:
  "map_of (storeToDerived (snd (register_store this s toSort sc)))
     = (map_of (storeToDerived sc))
         (s \<mapsto> (case map_of (storeToDerived sc) s of
                  None \<Rightarrow> [this]
                | Some arr \<Rightarrow> if arr_includes arr this then arr else arr @ [this]))"
  "map_of (derivedToStore (snd (register_store this s toSort sc)))
     = (map_of (derivedToStore sc))
         (cell_id this \<mapsto> set_add s (case map_of (derivedToStore sc) (cell_id this) of
                                      None \<Rightarrow> [] | Some related \<Rightarrow> related))"
proof -
  show "map_of (storeToDerived (snd (register_store this s toSort sc)))
     = (map_of (storeToDerived sc))
         (s \<mapsto> (case map_of (storeToDerived sc) s of
                  None \<Rightarrow> [this]
                | Some arr \<Rightarrow> if arr_includes arr this then arr else arr @ [this]))"
  proof (cases "map_of (storeToDerived sc) s")
    case None then show ?thesis by (simp add: register_store_def Let_def update_conv')
  next
    case (Some arr)
    then show ?thesis
      by (cases "arr_includes arr this") (auto simp: register_store_def Let_def update_conv')
  qed
  show "map_of (derivedToStore (snd (register_store this s toSort sc)))
     = (map_of (derivedToStore sc))
         (cell_id this \<mapsto> set_add s (case map_of (derivedToStore sc) (cell_id this) of
                                      None \<Rightarrow> [] | Some related \<Rightarrow> related))"
  proof (cases "map_of (storeToDerived sc) s")
    case None then show ?thesis by (simp add: register_store_def Let_def update_conv')
  next
    case (Some arr)
    then show ?thesis
      by (cases "arr_includes arr this") (simp_all add: register_store_def Let_def update_conv')
  qed
qed

lemma register_store_mono: "reg_mono sc (snd (register_store this s toSort sc))"
  unfolding reg_mono_def registered_def member_of_def register_store_maps
  by (auto simp: arr_includes_iff set_add_def split: option.splits)

lemma register_store_registers:
  "registered (snd (register_store this s toSort sc)) s this
   \<and> member_of (snd (register_store this s toSort sc)) (cell_id this) s"
  unfolding registered_def member_of_def register_store_maps
  by (auto simp: arr_includes_iff set_add_def same_cell_def split: option.splits)

lemma register_mono:
  "reg_mono sc (registerOnGraph this deps sc)"
  "reg_mono sc (snd (register_loop this deps toSort sc))"
proof (induction this deps sc and this deps toSort sc rule: registerOnGraph_register_loop.induct)
  case (1 this deps sc)
  obtain ts sc1 where rl: "register_loop this deps [] sc = (ts, sc1)"
    by (cases "register_loop this deps [] sc")
  have "reg_mono sc sc1" using 1 rl by simp
  moreover have "reg_mono sc1 (sort_all ts sc1)" by (rule sort_all_mono)
  moreover have "registerOnGraph this deps sc = sort_all ts sc1"
    using rl by (simp add: registerOnGraph.simps)
  ultimately show ?case by (metis reg_mono_trans)
next
  case (2 this toSort sc)
  show ?case by (simp add: reg_mono_refl)
next
  case (3 this j ds f deps toSort sc)
  define sc1 where "sc1 = registerOnGraph (Derived j ds f) ds sc"
  define sc2 where "sc2 = registerOnGraph this ds sc1"
  have "reg_mono sc sc1" using 3(1) by (simp add: sc1_def)
  moreover have "reg_mono sc1 sc2" using 3(2) by (simp add: sc1_def sc2_def)
  moreover have "reg_mono sc2 (snd (register_loop this deps toSort sc2))"
    using 3(3) by (simp add: sc1_def sc2_def)
  moreover have "register_loop this (Derived j ds f # deps) toSort sc
                 = register_loop this deps toSort sc2"
    by (simp add: sc1_def sc2_def)
  ultimately show ?case by (metis reg_mono_trans)
next
  case (4 this s deps toSort sc)
  obtain ts1 sc1 where rs: "register_store this s toSort sc = (ts1, sc1)"
    by (cases "register_store this s toSort sc")
  have "reg_mono sc sc1" using register_store_mono[of sc this s toSort] rs by simp
  moreover have "reg_mono sc1 (snd (register_loop this deps ts1 sc1))"
    using 4 rs by simp
  moreover have "register_loop this (Store s # deps) toSort sc = register_loop this deps ts1 sc1"
    using rs by simp
  ultimately show ?case by (metis reg_mono_trans)
qed

lemma register_registers:
  "\<forall>s \<in> set (leaf_stores deps).
      registered (registerOnGraph this deps sc) s this
      \<and> member_of (registerOnGraph this deps sc) (cell_id this) s"
  "\<forall>s \<in> set (leaf_stores deps).
      registered (snd (register_loop this deps toSort sc)) s this
      \<and> member_of (snd (register_loop this deps toSort sc)) (cell_id this) s"
proof (induction this deps sc and this deps toSort sc rule: registerOnGraph_register_loop.induct)
  case (1 this deps sc)
  obtain ts sc1 where rl: "register_loop this deps [] sc = (ts, sc1)"
    by (cases "register_loop this deps [] sc")
  have "\<forall>s \<in> set (leaf_stores deps). registered sc1 s this \<and> member_of sc1 (cell_id this) s"
    using 1 rl by simp
  then show ?case using rl sort_all_mono[of sc1 ts]
    by (auto simp: registerOnGraph.simps reg_mono_def)
next
  case (2 this toSort sc)
  show ?case by simp
next
  case (3 this j ds f deps toSort sc)
  define sc1 where "sc1 = registerOnGraph (Derived j ds f) ds sc"
  define sc2 where "sc2 = registerOnGraph this ds sc1"
  define sc3 where "sc3 = snd (register_loop this deps toSort sc2)"
  have a: "\<forall>s \<in> set (leaf_stores ds). registered sc2 s this \<and> member_of sc2 (cell_id this) s"
    using 3(2) by (simp add: sc1_def sc2_def)
  have "reg_mono sc2 sc3" using register_mono(2)[of sc2 this deps toSort] by (simp add: sc3_def)
  then have a': "\<forall>s \<in> set (leaf_stores ds). registered sc3 s this \<and> member_of sc3 (cell_id this) s"
    using a by (auto simp: reg_mono_def)
  have b: "\<forall>s \<in> set (leaf_stores deps). registered sc3 s this \<and> member_of sc3 (cell_id this) s"
    using 3(3) by (simp add: sc1_def sc2_def sc3_def)
  show ?case using a' b by (auto simp: sc1_def sc2_def sc3_def)
next
  case (4 this s deps toSort sc)
  obtain ts1 sc1 where rs: "register_store this s toSort sc = (ts1, sc1)"
    by (cases "register_store this s toSort sc")
  define sc2 where "sc2 = snd (register_loop this deps ts1 sc1)"
  have a: "registered sc1 s this \<and> member_of sc1 (cell_id this) s"
    using register_store_registers[of this s toSort sc] rs by simp
  have "reg_mono sc1 sc2" using register_mono(2)[of sc1 this deps ts1] by (simp add: sc2_def)
  then have a': "registered sc2 s this \<and> member_of sc2 (cell_id this) s"
    using a by (auto simp: reg_mono_def)
  have b: "\<forall>s' \<in> set (leaf_stores deps). registered sc2 s' this \<and> member_of sc2 (cell_id this) s'"
    using 4 rs by (simp add: sc2_def)
  show ?case using a' b rs by (auto simp: sc2_def)
qed

lemma register_loop_nested:
  assumes "Derived b ds g \<in> set deps" "s \<in> set (leaf_stores ds)"
  shows "registered (snd (register_loop this deps toSort sc)) s (Derived b ds g)
         \<and> member_of (snd (register_loop this deps toSort sc)) b s"
  using assms
proof (induction deps arbitrary: toSort sc)
  case Nil then show ?case by simp
next
  case (Cons dep deps)
  show ?case
  proof (cases dep)
    case (Store s')
    obtain ts1 sc1 where rs: "register_store this s' toSort sc = (ts1, sc1)"
      by (cases "register_store this s' toSort sc")
    have "Derived b ds g \<in> set deps" using Cons.prems Store by simp
    from Cons.IH[OF this Cons.prems(2), of ts1 sc1] show ?thesis using Store rs by simp
  next
    case (Derived j ds' f)
    define sc1 where "sc1 = registerOnGraph (Derived j ds' f) ds' sc"
    define sc2 where "sc2 = registerOnGraph this ds' sc1"
    define sc3 where "sc3 = snd (register_loop this deps toSort sc2)"
    show ?thesis
    proof (cases "dep = Derived b ds g")
      case True
      then have e: "j = b" "ds' = ds" "f = g" using Derived by simp_all
      have "registered sc1 s (Derived b ds g) \<and> member_of sc1 b s"
        using register_registers(1)[of ds "Derived b ds g" sc] Cons.prems(2) e
        by (simp add: sc1_def)
      moreover have "reg_mono sc1 sc2" using register_mono(1)[of sc1 this ds'] by (simp add: sc2_def)
      moreover have "reg_mono sc2 sc3"
        using register_mono(2)[of sc2 this deps toSort] by (simp add: sc3_def)
      ultimately have "registered sc3 s (Derived b ds g) \<and> member_of sc3 b s"
        by (auto simp: reg_mono_def)
      then show ?thesis using Derived by (simp add: sc1_def sc2_def sc3_def)
    next
      case False
      then have "Derived b ds g \<in> set deps" using Cons.prems by simp
      from Cons.IH[OF this Cons.prems(2), of toSort sc2] show ?thesis
        using Derived by (simp add: sc1_def sc2_def)
    qed
  qed
qed

lemma same_cell_sym: "same_cell x y \<Longrightarrow> same_cell y x"
  by (auto simp: same_cell_def)

lemma same_cell_trans: "same_cell x y \<Longrightarrow> same_cell y z \<Longrightarrow> same_cell x z"
  by (auto simp: same_cell_def)

lemma indexOf_found: "arr_includes arr this \<Longrightarrow> \<exists>k. indexOf arr this = Some k"
  by (induction arr) (auto simp: arr_includes_iff dest: same_cell_sym)

lemma splice_keeps_others:
  assumes "arr_includes arr this" "arr_includes arr x" "\<not> same_cell x this"
  shows "arr_includes (splice_indexOf arr this) x"
  using assms
proof (induction arr)
  case Nil then show ?case by (simp add: arr_includes_def)
next
  case (Cons y arr)
  show ?case
  proof (cases "same_cell y this")
    case True
    then have "splice_indexOf (y # arr) this = arr" by (simp add: splice_indexOf_def)
    moreover have "arr_includes arr x"
      using Cons.prems(2,3) True by (auto simp: arr_includes_iff dest: same_cell_trans)
    ultimately show ?thesis by simp
  next
    case False
    then have inc: "arr_includes arr this"
      using Cons.prems(1) by (auto simp: arr_includes_iff dest: same_cell_sym)
    then obtain k where k: "indexOf arr this = Some k"
      using indexOf_found by blast
    have sp: "splice_indexOf (y # arr) this = y # splice_indexOf arr this"
      using False k by (simp add: splice_indexOf_def)
    show ?thesis
    proof (cases "same_cell x y")
      case True then show ?thesis using sp by (simp add: arr_includes_iff)
    next
      case False
      then have "arr_includes arr x" using Cons.prems(2) by (auto simp: arr_includes_iff)
      from Cons.IH[OF inc this Cons.prems(3)] show ?thesis using sp by (simp add: arr_includes_iff)
    qed
  qed
qed

lemma unregister_store_keeps:
  assumes "registered sc s' this" "registered sc s x" "\<not> same_cell x this"
  shows "registered (unregister_store this s' sc) s x"
  using assms splice_keeps_others[of _ this x]
  unfolding registered_def unregister_store_def Let_def
  by (auto simp: update_conv' split: option.splits)

lemma unregister_store_other_source:
  "s \<noteq> s' \<Longrightarrow> map_of (storeToDerived (unregister_store this s' sc)) s = map_of (storeToDerived sc) s"
  unfolding unregister_store_def Let_def
  by (auto simp: update_conv' split: option.splits)

lemma unregister_store_member:
  "b \<noteq> cell_id this \<Longrightarrow> member_of (unregister_store this s' sc) b s = member_of sc b s"
  unfolding member_of_def unregister_store_def Let_def
  by (auto simp: update_conv' split: option.splits)

lemma unregister_other_source:
  "s \<notin> set (leaf_stores deps) \<Longrightarrow>
     map_of (storeToDerived (unregisterFromGraph this deps sc)) s = map_of (storeToDerived sc) s"
  by (induction this deps sc rule: unregisterFromGraph.induct)
     (auto simp: unregister_store_other_source)

lemma unregister_member:
  "b \<noteq> cell_id this \<Longrightarrow> member_of (unregisterFromGraph this deps sc) b s = member_of sc b s"
  by (induction this deps sc rule: unregisterFromGraph.induct)
     (auto simp: unregister_store_member)

lemma unregister_keeps:
  assumes "distinct (leaf_stores deps)"
    and "\<forall>s' \<in> set (leaf_stores deps). registered sc s' this"
    and "registered sc s x" "\<not> same_cell x this"
  shows "registered (unregisterFromGraph this deps sc) s x"
  using assms
proof (induction this deps sc rule: unregisterFromGraph.induct)
  case (1 this sc)
  then show ?case by simp
next
  case (2 this j ds f deps sc)
  define sc1 where "sc1 = unregisterFromGraph this ds sc"
  have d: "distinct (leaf_stores ds)" "distinct (leaf_stores deps)"
    "set (leaf_stores ds) \<inter> set (leaf_stores deps) = {}"
    using 2(3) by simp_all
  have "registered sc1 s x" using 2(1)[OF d(1) _ 2(5,6)] 2(4) by (simp add: sc1_def)
  moreover have "\<forall>s' \<in> set (leaf_stores deps). registered sc1 s' this"
  proof
    fix s' assume s': "s' \<in> set (leaf_stores deps)"
    then have "s' \<notin> set (leaf_stores ds)" using d(3) by auto
    then have "map_of (storeToDerived sc1) s' = map_of (storeToDerived sc) s'"
      unfolding sc1_def by (rule unregister_other_source)
    then show "registered sc1 s' this" using 2(4) s' by (simp add: registered_def)
  qed
  ultimately show ?case
    using 2(2)[OF d(2) _ _ 2(6)] by (simp add: sc1_def)
next
  case (3 this s' deps sc)
  define sc1 where "sc1 = unregister_store this s' sc"
  have d: "s' \<notin> set (leaf_stores deps)" "distinct (leaf_stores deps)" using 3(2) by simp_all
  have "registered sc s' this" using 3(3) by simp
  then have "registered sc1 s x" using 3(4,5) unfolding sc1_def by (rule unregister_store_keeps)
  moreover have "\<forall>s'' \<in> set (leaf_stores deps). registered sc1 s'' this"
  proof
    fix s'' assume s'': "s'' \<in> set (leaf_stores deps)"
    then have "s'' \<noteq> s'" using d(1) by auto
    then have "map_of (storeToDerived sc1) s'' = map_of (storeToDerived sc) s''"
      unfolding sc1_def by (rule unregister_store_other_source)
    then show "registered sc1 s'' this" using 3(3) s'' by (simp add: registered_def)
  qed
  ultimately show ?case using 3(1)[OF d(2) _ _ 3(5)] by (simp add: sc1_def)
qed

text \<open>
  \<open>C.registerOnGraph()\<close> registers a derived dependency \<open>B\<close> of \<open>C\<close> under every
  source of \<open>B\<close>, in both tables. \<open>C.unregisterFromGraph()\<close> looks for \<open>C\<close> only:
  the reverse membership of \<open>B\<close> stays, and the entry of \<open>B\<close> in the dependent list
  of each of its sources stays when the dependency tree of \<open>C\<close> reaches every source
  once.
\<close>

lemma nested_dependency_stays_registered:
  assumes nested: "Derived b ds g \<in> set deps" and neq: "b \<noteq> c"
    and once: "distinct (leaf_stores deps)"
    and src: "s \<in> set (leaf_stores ds)"
  shows "registered (registerOnGraph (Derived c deps f) deps sc) s (Derived b ds g)
         \<and> member_of (registerOnGraph (Derived c deps f) deps sc) b s
         \<and> registered (unmount (Derived c deps f) (registerOnGraph (Derived c deps f) deps sc))
              s (Derived b ds g)
         \<and> member_of (unmount (Derived c deps f) (registerOnGraph (Derived c deps f) deps sc)) b s"
proof -
  let ?C = "Derived c deps f" and ?B = "Derived b ds g"
  define sc1 where "sc1 = registerOnGraph ?C deps sc"
  obtain ts sc0 where rl: "register_loop ?C deps [] sc = (ts, sc0)"
    by (cases "register_loop ?C deps [] sc")
  have "registered sc0 s ?B \<and> member_of sc0 b s"
    using register_loop_nested[OF nested src, of ?C "[]" sc] rl by simp
  moreover have "reg_mono sc0 sc1"
    using sort_all_mono[of sc0 ts] rl by (simp add: sc1_def registerOnGraph.simps)
  ultimately have r1: "registered sc1 s ?B" and m1: "member_of sc1 b s"
    by (auto simp: reg_mono_def)
  have all: "\<forall>s' \<in> set (leaf_stores deps). registered sc1 s' ?C"
    using register_registers(1)[of deps ?C sc] by (simp add: sc1_def)
  have ns: "\<not> same_cell ?B ?C" using neq by (simp add: same_cell_def)
  have "registered (unregisterFromGraph ?C deps sc1) s ?B"
    using once all r1 ns by (rule unregister_keeps)
  moreover have "member_of (unregisterFromGraph ?C deps sc1) b s"
    using unregister_member[of b ?C deps sc1 s] neq m1 by simp
  ultimately show ?thesis using r1 m1 by (simp add: sc1_def unmount_def)
qed

text \<open>
  C8 (the code at the failing input). \<open>B\<close> is computed from \<open>A\<close> and \<open>C\<close> from \<open>A\<close>
  and \<open>B\<close> (here \<open>cellG\<close>). \<open>C.mount()\<close> registers \<open>B\<close> and \<open>C\<close> under \<open>A\<close>. Its
  unmount reaches \<open>A\<close> twice, once directly and once through \<open>B\<close>: the first \<open>splice\<close>
  removes \<open>C\<close>, the second one finds \<open>indexOf(C) = -1\<close> and removes the last entry,
  which is \<open>B\<close>'s. The dependent list of \<open>A\<close> is left empty: the registry entry of \<open>B\<close>
  does not remain.
\<close>

theorem unmount_takes_nested_entry:
  "registry_ids (registerOnGraph cellG [cellA, cellB] init_sched) = [(0, [1, 2])]
   \<and> registered (registerOnGraph cellG [cellA, cellB] init_sched) 0 cellB
   \<and> registry_ids (unmount cellG (registerOnGraph cellG [cellA, cellB] init_sched)) = [(0, [])]
   \<and> \<not> registered (unmount cellG (registerOnGraph cellG [cellA, cellB] init_sched)) 0 cellB"
  by (simp add: registered_def registry_defs)

end
